theory Spec2Isabelle
  imports Complex_Main "HOL-Library.Word" "HOL-Library.Product_Lexorder" "HOL-Library.Log_Nat"
    "HOL-Library.Code_Target_Numeral"
begin

section \<open>Numbers\<close>

text \<open>
  The C++ code computes with \<^verbatim>\<open>double\<close>, the binary64 format of IEEE 754. The doubles that
  \<^verbatim>\<open>Dijkstra\<close> stores in \<^verbatim>\<open>dist\<close> and in its priority queue are the values of the type
  \<open>dbl\<close>: a finite double is the real number it denotes, and \<open>PInf\<close> and \<open>MInf\<close> are
  \<^verbatim>\<open>std::numeric_limits<double>::infinity()\<close> and its negative. The two zeros are one
  value: the code only adds and compares doubles, and \<^verbatim>\<open>-0.0\<close> and \<^verbatim>\<open>0.0\<close> compare equal.
  The weight of an edge is a finite double, given by the real number it denotes;
  \<^verbatim>\<open>NaN\<close> and infinite weights are outside the model. The addition
  \<^verbatim>\<open>du + w.weight\<close> of Dijkstra's relaxation is modelled with its rounding and its overflow.
  The cost of a link in \<^verbatim>\<open>Network.h\<close> is computed over the real numbers: there rounding is
  not modelled. \<^verbatim>\<open>std::size_t\<close> is a 64-bit word.
\<close>

type_synonym size_t = "64 word"

datatype dbl = MInf | Fin real | PInf

instantiation dbl :: linorder
begin

fun less_eq_dbl :: "dbl \<Rightarrow> dbl \<Rightarrow> bool" where
  "less_eq_dbl MInf y = True"
| "less_eq_dbl (Fin a) MInf = False"
| "less_eq_dbl (Fin a) (Fin b) = (a \<le> b)"
| "less_eq_dbl (Fin a) PInf = True"
| "less_eq_dbl PInf MInf = False"
| "less_eq_dbl PInf (Fin b) = False"
| "less_eq_dbl PInf PInf = True"

definition less_dbl :: "dbl \<Rightarrow> dbl \<Rightarrow> bool" where
  "less_dbl x y = (x \<le> y \<and> \<not> y \<le> x)"

instance
proof
  fix x y z :: dbl
  show "(x < y) = (x \<le> y \<and> \<not> y \<le> x)" by (simp add: less_dbl_def)
  show "x \<le> x" by (cases x) auto
  show "x \<le> y \<Longrightarrow> y \<le> z \<Longrightarrow> x \<le> z" by (cases x; cases y; cases z) auto
  show "x \<le> y \<Longrightarrow> y \<le> x \<Longrightarrow> x = y" by (cases x; cases y) auto
  show "x \<le> y \<or> y \<le> x" by (cases x; cases y) auto
qed

end

text \<open>
  Rounding to nearest, ties to even, the rounding of every addition of doubles. The
  finite doubles that are not negative are the multiples \<open>q * 2 ^ s * ulp\<close> of
  \<open>ulp = 2 ^ -1074\<close>, the least positive double, with a significand \<open>q < 2 ^ 53\<close> and
  less than \<open>2 ^ 2098\<close> units, which is \<open>2 ^ 1024\<close>. For a real number of \<open>y \<ge> 0\<close> units
  with the integer part \<open>N\<close>, \<open>rnd_units y\<close> is the number of units of the nearest double:
  the exponent \<open>s\<close> is the number of bits of \<open>N\<close> beyond 53 (none for the subnormal numbers
  and the first binade), \<open>q * 2 ^ s\<close> is the double just below \<open>y\<close> or equal to it,
  \<open>(q + 1) * 2 ^ s\<close> the one above, and \<open>r\<close> the distance of \<open>y\<close> from the former; the
  nearer of the two is taken, and the one with the even significand when \<open>y\<close> lies halfway.
  A result of \<open>2 ^ 1024\<close> or more is replaced by the infinity of its sign.
\<close>

definition ulp :: real where
  "ulp = 1 / 2 ^ 1074"

definition overflow_units :: nat where
  "overflow_units = 2 ^ 2098"

definition rnd_units :: "real \<Rightarrow> nat" where
  "rnd_units y =
     (let N = nat \<lfloor>y\<rfloor>;
          s = floorlog 2 N - 53;
          q = N div 2 ^ s;
          r = y - real (q * 2 ^ s)
      in if 2 ^ s < 2 * r \<or> (2 * r = 2 ^ s \<and> odd q) then (q + 1) * 2 ^ s else q * 2 ^ s)"

definition rnd_nonneg :: "real \<Rightarrow> dbl" where
  "rnd_nonneg x =
     (let m = rnd_units (x / ulp)
      in if overflow_units \<le> m then PInf else Fin (real m * ulp))"

fun dneg :: "dbl \<Rightarrow> dbl" where
  "dneg MInf = PInf"
| "dneg (Fin a) = Fin (- a)"
| "dneg PInf = MInf"

definition rnd :: "real \<Rightarrow> dbl" where
  "rnd x = (if x < 0 then dneg (rnd_nonneg (- x)) else rnd_nonneg x)"

text \<open>
  \<^verbatim>\<open>x + w\<close> for a double \<open>x\<close> and a finite double \<open>w\<close>: the exact sum, rounded; an infinite
  \<open>x\<close> stays as it is.
\<close>

fun dadd :: "dbl \<Rightarrow> real \<Rightarrow> dbl" where
  "dadd MInf w = MInf"
| "dadd (Fin a) w = rnd (a + w)"
| "dadd PInf w = PInf"

section \<open>Graph.h\<close>

text \<open>
  \<^verbatim>\<open>Graph<TNode, TEdge>\<close>: the adjacency map \<^verbatim>\<open>std::map<TNode, std::vector<std::pair<TNode, TEdge>>>\<close>
  and the flag \<^verbatim>\<open>directed_\<close> (written \<open>directed\<close> here: a name cannot end in an underscore).
\<close>

record ('n, 'e) Graph =
  adjacency :: "'n \<rightharpoonup> ('n \<times> 'e) list"
  directed :: bool

text \<open>\<^verbatim>\<open>explicit Graph(bool directed = true)\<close>\<close>

definition Graph_new :: "bool \<Rightarrow> ('n, 'e) Graph" where
  "Graph_new d = \<lparr>adjacency = Map.empty, directed = d\<rparr>"

text \<open>\<^verbatim>\<open>adjacency[node]\<close>: \<^verbatim>\<open>operator[]\<close> inserts an empty vector when the key is absent.\<close>

definition addNode :: "('n, 'e) Graph \<Rightarrow> 'n \<Rightarrow> ('n, 'e) Graph" where
  "addNode g node =
     (case adjacency g node of
        None \<Rightarrow> g\<lparr>adjacency := (adjacency g)(node \<mapsto> [])\<rparr>
      | Some _ \<Rightarrow> g)"

text \<open>\<^verbatim>\<open>adjacency[k].push_back(x)\<close>\<close>

definition push_back_at :: "('n \<rightharpoonup> 'a list) \<Rightarrow> 'n \<Rightarrow> 'a \<Rightarrow> ('n \<rightharpoonup> 'a list)" where
  "push_back_at m k x = m(k \<mapsto> (case m k of None \<Rightarrow> [] | Some xs \<Rightarrow> xs) @ [x])"

definition addEdge :: "('n, 'e) Graph \<Rightarrow> 'n \<Rightarrow> 'n \<Rightarrow> 'e \<Rightarrow> ('n, 'e) Graph" where
  "addEdge g u v edge =
     (let g1 = addNode g u;
          g2 = addNode g1 v;
          g3 = g2\<lparr>adjacency := push_back_at (adjacency g2) u (v, edge)\<rparr>
      in if \<not> directed g3
         then g3\<lparr>adjacency := push_back_at (adjacency g3) v (u, edge)\<rparr>
         else g3)"

text \<open>
  \<^verbatim>\<open>removeNode\<close>: erase the key, then in every remaining vector erase the pairs whose
  first component is the node (\<^verbatim>\<open>remove_if\<close> keeps the others in order).
\<close>

definition removeNode :: "('n, 'e) Graph \<Rightarrow> 'n \<Rightarrow> ('n, 'e) Graph" where
  "removeNode g node =
     g\<lparr>adjacency := (\<lambda>u. if u = node then None
                           else map_option (filter (\<lambda>pair. \<not> fst pair = node)) (adjacency g u))\<rparr>"

definition removeEdge :: "('n, 'e) Graph \<Rightarrow> 'n \<Rightarrow> 'n \<Rightarrow> ('n, 'e) Graph" where
  "removeEdge g u v =
     (let a1 = (case adjacency g u of
                  None \<Rightarrow> adjacency g
                | Some neighbors \<Rightarrow> (adjacency g)(u \<mapsto> filter (\<lambda>p. \<not> fst p = v) neighbors));
          a2 = (if \<not> directed g
                then (case a1 v of
                        None \<Rightarrow> a1
                      | Some rev' \<Rightarrow> a1(v \<mapsto> filter (\<lambda>p. \<not> fst p = u) rev'))
                else a1)
      in g\<lparr>adjacency := a2\<rparr>)"

definition getNeighbors :: "('n, 'e) Graph \<Rightarrow> 'n \<Rightarrow> 'n list" where
  "getNeighbors g node =
     (case adjacency g node of None \<Rightarrow> [] | Some ps \<Rightarrow> map fst ps)"

definition hasNode :: "('n, 'e) Graph \<Rightarrow> 'n \<Rightarrow> bool" where
  "hasNode g node = (adjacency g node \<noteq> None)"

text \<open>
  The adjacency sequence of a node as \<^verbatim>\<open>data().find(node)\<close> gives it, empty when the
  node is absent.
\<close>

definition entries :: "('n, 'e) Graph \<Rightarrow> 'n \<Rightarrow> ('n \<times> 'e) list" where
  "entries g node = (case adjacency g node of None \<Rightarrow> [] | Some ps \<Rightarrow> ps)"

section \<open>Network.h\<close>

record Link =
  latencyMs :: real
  bandwidthMbps :: real
  reliability :: real

definition costForBytes :: "Link \<Rightarrow> size_t \<Rightarrow> real" where
  "costForBytes l bytes =
     (let secondsLatency = latencyMs l / 1000;
          secondsPayload = (if bandwidthMbps l > 0
                            then real (unat bytes) * 8 / (bandwidthMbps l * 1000000)
                            else 1000000000)
      in secondsLatency + secondsPayload)"

text \<open>
  Modelled from the spec: the fields of \<^verbatim>\<open>Packet\<close>, which Network.h elides
  (\<^verbatim>\<open>// ... (fields)\<close>): source and destination names, the counter \<^verbatim>\<open>ttl_\<close> read by
  \<^verbatim>\<open>ttl()\<close> (a signed integer: the simulator tests \<^verbatim>\<open>pkt.ttl() <= 0\<close>), the size in
  bytes read by \<^verbatim>\<open>size()\<close>, and the hop history \<^verbatim>\<open>hops_\<close>.
\<close>

record Packet =
  src :: string
  dst :: string
  ttl :: int
  size_bytes :: size_t
  hops :: "string list"

definition decTTL :: "Packet \<Rightarrow> Packet" where
  "decTTL pkt = pkt\<lparr>ttl := ttl pkt - 1\<rparr>"

definition addHop :: "Packet \<Rightarrow> string \<Rightarrow> Packet" where
  "addHop pkt nodeName = pkt\<lparr>hops := hops pkt @ [nodeName]\<rparr>"

text \<open>
  A device as the simulator uses it: its name (and numeric id). A \<^verbatim>\<open>Device*\<close> argument
  is a \<open>Device option\<close>, \<open>None\<close> for \<^verbatim>\<open>nullptr\<close>.
\<close>

record Device =
  dev_id :: int
  name :: string

section \<open>NetworkSimulator.h\<close>

record NetworkSimulator =
  graph :: "(string, Link) Graph"
  devices :: "string \<rightharpoonup> Device"

text \<open>The member \<^verbatim>\<open>graph_\<close> is default-constructed, hence directed.\<close>

definition NetworkSimulator_new :: NetworkSimulator where
  "NetworkSimulator_new = \<lparr>graph = Graph_new True, devices = Map.empty\<rparr>"

datatype error = runtime_error string

text \<open>
  A call returns what it threw, if anything, together with the simulator's state after
  the call.
\<close>

definition addDevice :: "NetworkSimulator \<Rightarrow> Device option \<Rightarrow> (error + unit) \<times> NetworkSimulator" where
  "addDevice s d =
     (case d of
        None \<Rightarrow> (Inl (runtime_error ''Null device''), s)
      | Some dev \<Rightarrow>
          (Inr (), s\<lparr>devices := (devices s)(name dev \<mapsto> dev),
                     graph := addNode (graph s) (name dev)\<rparr>))"

definition connect ::
  "NetworkSimulator \<Rightarrow> string \<Rightarrow> string \<Rightarrow> Link \<Rightarrow> bool \<Rightarrow> (error + unit) \<times> NetworkSimulator" where
  "connect s a b link bidir =
     (if \<not> hasNode (graph s) a \<or> \<not> hasNode (graph s) b
      then (Inl (runtime_error ''Unknown node in connect()''), s)
      else (let g1 = addEdge (graph s) a b link;
                g2 = (if bidir then addEdge g1 b a link else g1)
            in (Inr (), s\<lparr>graph := g2\<rparr>)))"

text \<open>
  The inner loop of \<^verbatim>\<open>sendPacket\<close>: scan the adjacency entries of \<open>u\<close> in order and stop
  (\<^verbatim>\<open>break\<close>) at the first one whose target is \<open>v\<close>; \<open>edgeCost\<close> keeps its initial
  value when none matches.
\<close>

fun scanEntries :: "(string \<times> Link) list \<Rightarrow> string \<Rightarrow> size_t \<Rightarrow> real \<Rightarrow> real" where
  "scanEntries [] v sz edgeCost = edgeCost"
| "scanEntries ((to', link) # rest) v sz edgeCost =
     (if to' = v then costForBytes link sz else scanEntries rest v sz edgeCost)"

definition hopCost :: "(string, Link) Graph \<Rightarrow> string \<Rightarrow> string \<Rightarrow> size_t \<Rightarrow> real" where
  "hopCost g u v sz =
     (case adjacency g u of
        None \<Rightarrow> 1000000000
      | Some es \<Rightarrow> scanEntries es v sz 1000000000)"

text \<open>The \<^verbatim>\<open>for\<close> loop of \<^verbatim>\<open>sendPacket\<close>, from index \<open>i\<close> on.\<close>

function sendLoop ::
  "(string, Link) Graph \<Rightarrow> string list \<Rightarrow> nat \<Rightarrow> real \<Rightarrow> Packet \<Rightarrow> real \<times> Packet" where
  "sendLoop g path i totalSeconds pkt =
     (if i < length path
      then (if ttl pkt \<le> 0 then (totalSeconds, pkt)
            else (let u = path ! (i - 1);
                      v = path ! i;
                      edgeCost = hopCost g u v (size_bytes pkt)
                  in sendLoop g path (i + 1) (totalSeconds + edgeCost) (addHop (decTTL pkt) v)))
      else (totalSeconds, pkt))"
  by pat_completeness auto
termination
  by (relation "measure (\<lambda>(g, path, i, t, pkt). length path - i)") auto

definition sendPacket :: "NetworkSimulator \<Rightarrow> string list \<Rightarrow> Packet \<Rightarrow> real \<times> Packet" where
  "sendPacket s path pkt =
     (if length path < 2 then (0, pkt)
      else sendLoop (graph s) path 1 0 (addHop pkt (hd path)))"

section \<open>GraphAlgorithms.h\<close>

subsection \<open>BFS and DFS\<close>

text \<open>
  A traversal prints the nodes it visits; the printed sequence is the list \<open>out\<close>. A run
  that does not terminate is \<open>None\<close>.
\<close>

fun bfs_neighbors :: "'n list \<Rightarrow> 'n set \<times> 'n list \<Rightarrow> 'n set \<times> 'n list" where
  "bfs_neighbors [] (visited, q) = (visited, q)"
| "bfs_neighbors (neighbor # rest) (visited, q) =
     (if neighbor \<notin> visited
      then bfs_neighbors rest (insert neighbor visited, q @ [neighbor])
      else bfs_neighbors rest (visited, q))"

partial_function (option) bfs_loop ::
  "('n, 'e) Graph \<Rightarrow> 'n list \<Rightarrow> 'n set \<Rightarrow> 'n list \<Rightarrow> ('n set \<times> 'n list) option" where
  "bfs_loop g q visited out =
     (case q of
        [] \<Rightarrow> Some (visited, out)
      | node # q' \<Rightarrow>
          (case bfs_neighbors (getNeighbors g node) (visited, q') of
             (visited', q'') \<Rightarrow> bfs_loop g q'' visited' (out @ [node])))"

definition BFS_run :: "('n, 'e) Graph \<Rightarrow> 'n \<Rightarrow> ('n set \<times> 'n list) option" where
  "BFS_run g start = bfs_loop g [start] {start} []"

fun dfs_push :: "'n list \<Rightarrow> 'n list \<Rightarrow> 'n list" where
  "dfs_push [] st = st"
| "dfs_push (neighbor # rest) st = dfs_push rest (neighbor # st)"

partial_function (option) dfs_loop ::
  "('n, 'e) Graph \<Rightarrow> 'n list \<Rightarrow> 'n set \<Rightarrow> 'n list \<Rightarrow> ('n set \<times> 'n list) option" where
  "dfs_loop g st visited out =
     (case st of
        [] \<Rightarrow> Some (visited, out)
      | node # st' \<Rightarrow>
          (if node \<notin> visited
           then dfs_loop g (dfs_push (getNeighbors g node) st') (insert node visited) (out @ [node])
           else dfs_loop g st' visited out))"

definition DFS_run :: "('n, 'e) Graph \<Rightarrow> 'n \<Rightarrow> ('n set \<times> 'n list) option" where
  "DFS_run g start = dfs_loop g [start] {} []"

subsection \<open>Dijkstra\<close>

record WeightedEdge =
  weight :: real

record 'n Dijkstra =
  dist :: "'n \<rightharpoonup> dbl"
  parent :: "'n \<rightharpoonup> 'n"

text \<open>
  \<^verbatim>\<open>dist[u]\<close>: \<^verbatim>\<open>operator[]\<close> of \<^verbatim>\<open>std::map\<close> inserts \<open>0.0\<close> when the key is absent and
  returns the stored value.
\<close>

definition dist_at :: "('n \<rightharpoonup> dbl) \<Rightarrow> 'n \<Rightarrow> ('n \<rightharpoonup> dbl) \<times> dbl" where
  "dist_at d u = (case d u of None \<Rightarrow> (d(u \<mapsto> Fin 0), Fin 0) | Some x \<Rightarrow> (d, x))"

text \<open>
  The relaxation loop over the adjacency entries of \<open>u\<close>, with
  \<^verbatim>\<open>double nd = du + w.weight\<close> an addition of doubles. The priority queue is the list
  of its items; \<^verbatim>\<open>top()\<close> is the least item in the lexicographic order of pairs.
\<close>

fun relax ::
  "'n \<Rightarrow> dbl \<Rightarrow> ('n \<times> WeightedEdge) list \<Rightarrow>
   ('n \<rightharpoonup> dbl) \<times> ('n \<rightharpoonup> 'n) \<times> (dbl \<times> 'n) list \<Rightarrow>
   ('n \<rightharpoonup> dbl) \<times> ('n \<rightharpoonup> 'n) \<times> (dbl \<times> 'n) list" where
  "relax u du [] (d, p, pq) = (d, p, pq)"
| "relax u du ((v, w) # rest) (d, p, pq) =
     (let nd = dadd du (weight w) in
      case dist_at d v of
        (d1, dv) \<Rightarrow>
          if nd < dv then relax u du rest (d1(v \<mapsto> nd), p(v \<mapsto> u), (nd, v) # pq)
          else relax u du rest (d1, p, pq))"

partial_function (option) run_loop ::
  "('n::linorder, WeightedEdge) Graph \<Rightarrow>
   ('n \<rightharpoonup> dbl) \<times> ('n \<rightharpoonup> 'n) \<times> (dbl \<times> 'n) list \<Rightarrow> 'n Dijkstra option" where
  "run_loop g st =
     (case st of
        (d, p, pq) \<Rightarrow>
          if pq = [] then Some \<lparr>dist = d, parent = p\<rparr>
          else (case Min (set pq) of
                  (du, u) \<Rightarrow>
                    (let pq' = remove1 (du, u) pq in
                     case dist_at d u of
                       (d1, cur) \<Rightarrow>
                         if du \<noteq> cur then run_loop g (d1, p, pq')
                         else (case adjacency g u of
                                 None \<Rightarrow> run_loop g (d1, p, pq')
                               | Some es \<Rightarrow> run_loop g (relax u du es (d1, p, pq'))))))"

definition run :: "('n::linorder, WeightedEdge) Graph \<Rightarrow> 'n \<Rightarrow> 'n Dijkstra option" where
  "run g start =
     (let d0 = (\<lambda>u. if hasNode g u then Some PInf else None) in
      if \<not> hasNode g start then Some \<lparr>dist = d0, parent = Map.empty\<rparr>
      else run_loop g (d0(start \<mapsto> Fin 0), Map.empty, [(Fin 0, start)]))"

text \<open>The \<^verbatim>\<open>while (cur != start)\<close> loop of \<^verbatim>\<open>getPathTo\<close>.\<close>

partial_function (option) pathLoop ::
  "('n \<rightharpoonup> 'n) \<Rightarrow> 'n \<Rightarrow> 'n \<Rightarrow> 'n list \<Rightarrow> 'n list option" where
  "pathLoop par start cur path =
     (if cur \<noteq> start
      then (case par cur of
              None \<Rightarrow> Some []
            | Some nxt \<Rightarrow> pathLoop par start nxt (path @ [cur]))
      else Some (rev (path @ [start])))"

definition getPathTo :: "'n Dijkstra \<Rightarrow> 'n \<Rightarrow> 'n \<Rightarrow> 'n list option" where
  "getPathTo dj start target =
     (if dist dj target = None \<or> dist dj target = Some PInf then Some []
      else pathLoop (parent dj) start target [])"


text \<open>The loops are evaluated by their equations.\<close>

declare bfs_loop.simps [code]

declare dfs_loop.simps [code]

declare run_loop.simps [code]

declare pathLoop.simps [code]

section \<open>Notions used in the statements\<close>

text \<open>
  \<open>broken_after par start cur k\<close>: the walk along \<open>par\<close> from \<open>cur\<close> makes \<open>k\<close> steps through
  nodes other than \<open>start\<close> and then stands at a node, again other than \<open>start\<close>, that has
  no parent entry.
\<close>

fun broken_after :: "('n \<rightharpoonup> 'n) \<Rightarrow> 'n \<Rightarrow> 'n \<Rightarrow> nat \<Rightarrow> bool" where
  "broken_after par start cur 0 = (cur \<noteq> start \<and> par cur = None)"
| "broken_after par start cur (Suc k) =
     (cur \<noteq> start \<and> (case par cur of None \<Rightarrow> False | Some nxt \<Rightarrow> broken_after par start nxt k))"

text \<open>The nodes a graph mentions: its keys and the targets of their entries.\<close>

definition nodes_of :: "('n, 'e) Graph \<Rightarrow> 'n set" where
  "nodes_of g = dom (adjacency g) \<union> (\<Union>u \<in> dom (adjacency g). set (getNeighbors g u))"

text \<open>
  A walk from \<open>u\<close> is a list of steps \<open>(v, w)\<close>, each an adjacency entry of the node the
  walk stands at; \<open>walk_end\<close> is the node it ends at. \<open>walk_weight\<close> is the sum of the
  weights of its steps as a real number, and \<open>walk_sum x\<close> is the sum as the code
  accumulates it: in doubles, from the value \<open>x\<close> on, one step after the other in the
  order of the walk.
\<close>

fun is_walk :: "('n, 'e) Graph \<Rightarrow> 'n \<Rightarrow> ('n \<times> 'e) list \<Rightarrow> bool" where
  "is_walk g u [] = True"
| "is_walk g u ((v, w) # rest) = ((v, w) \<in> set (entries g u) \<and> is_walk g v rest)"

definition walk_end :: "'n \<Rightarrow> ('n \<times> 'e) list \<Rightarrow> 'n" where
  "walk_end u steps = last (u # map fst steps)"

definition walk_weight :: "('n \<times> WeightedEdge) list \<Rightarrow> real" where
  "walk_weight steps = sum_list (map (\<lambda>step. weight (snd step)) steps)"

fun walk_sum :: "dbl \<Rightarrow> ('n \<times> WeightedEdge) list \<Rightarrow> dbl" where
  "walk_sum x [] = x"
| "walk_sum x (e # rest) = walk_sum (dadd x (weight (snd e))) rest"

text \<open>The caller's contract of \<^verbatim>\<open>Dijkstra::run\<close>: no edge weight is negative.\<close>

definition nonneg_weights :: "('n, WeightedEdge) Graph \<Rightarrow> bool" where
  "nonneg_weights g = (\<forall>u v w. (v, w) \<in> set (entries g u) \<longrightarrow> 0 \<le> weight w)"

text \<open>
  The weight of a consecutive pair \<open>(u, v)\<close> of a node sequence is the least weight of an
  entry of \<open>u\<close> toward \<open>v\<close> (parallel edges are legal), and \<open>path_sum g x\<close> adds it in
  doubles over the consecutive pairs, from the value \<open>x\<close> on. \<open>dist_of dj n\<close> is the
  distance recorded for \<open>n\<close>, \<open>+\<infinity>\<close> when there is none.
\<close>

definition pair_weight :: "('n, WeightedEdge) Graph \<Rightarrow> 'n \<Rightarrow> 'n \<Rightarrow> real" where
  "pair_weight g u v = Min (set (map (\<lambda>e. weight (snd e)) (filter (\<lambda>e. fst e = v) (entries g u))))"

fun path_sum :: "('n, WeightedEdge) Graph \<Rightarrow> dbl \<Rightarrow> 'n list \<Rightarrow> dbl" where
  "path_sum g x (u # v # rest) = path_sum g (dadd x (pair_weight g u v)) (v # rest)"
| "path_sum g x [u] = x"
| "path_sum g x [] = x"

definition dist_of :: "'n Dijkstra \<Rightarrow> 'n \<Rightarrow> dbl" where
  "dist_of dj n = (case dist dj n of None \<Rightarrow> PInf | Some y \<Rightarrow> y)"

text \<open>
  What the queries give after \<open>run(g, start)\<close>: the recorded distance and parent of a
  node, and the result of \<open>getPathTo(start, v)\<close>; \<open>None\<close> when there is no entry, or
  when the call does not return.
\<close>

definition dist_after :: "('n::linorder, WeightedEdge) Graph \<Rightarrow> 'n \<Rightarrow> 'n \<Rightarrow> dbl option" where
  "dist_after g start v = (case run g start of None \<Rightarrow> None | Some dj \<Rightarrow> dist dj v)"

definition parent_after :: "('n::linorder, WeightedEdge) Graph \<Rightarrow> 'n \<Rightarrow> 'n \<Rightarrow> 'n option" where
  "parent_after g start v = (case run g start of None \<Rightarrow> None | Some dj \<Rightarrow> parent dj v)"

definition path_after :: "('n::linorder, WeightedEdge) Graph \<Rightarrow> 'n \<Rightarrow> 'n \<Rightarrow> 'n list option" where
  "path_after g start v = (case run g start of None \<Rightarrow> None | Some dj \<Rightarrow> getPathTo dj start v)"

text \<open>A real number is a double when rounding leaves it as it is.\<close>

definition is_double :: "real \<Rightarrow> bool" where
  "is_double x = (rnd x = Fin x)"

section \<open>The invariant of Dijkstra's loop\<close>

text \<open>
  A recorded distance is \<open>+\<infinity>\<close> or a double that is not negative (\<open>is_dist\<close>).
  A node is settled when its recorded distance is finite and no item of the queue carries
  that distance for it: its item has been popped and all its entries have been relaxed.
  \<open>relaxed d u es\<close> says so for the entries \<open>es\<close>. \<open>back_walk\<close> follows the parent map from
  a node back to the start through settled nodes, the recorded distance of each node being
  the sum in doubles (\<open>back_sum\<close>) of the weights from the start up to it. \<open>dinv\<close> is the
  invariant of the \<^verbatim>\<open>while\<close> loop, \<open>rinv\<close> that of the \<^verbatim>\<open>for\<close> loop over the entries of
  the popped node, and \<open>relax1\<close> is one iteration of the latter.
\<close>

definition is_dist :: "dbl \<Rightarrow> bool" where
  "is_dist x = (case x of MInf \<Rightarrow> False | Fin r \<Rightarrow> 0 \<le> r \<and> rnd r = Fin r | PInf \<Rightarrow> True)"

definition settled ::
  "('n, WeightedEdge) Graph \<Rightarrow> ('n \<rightharpoonup> dbl) \<Rightarrow> (dbl \<times> 'n) list \<Rightarrow> 'n \<Rightarrow> bool" where
  "settled g d pq u = (hasNode g u \<and> (\<exists>r. d u = Some (Fin r) \<and> (Fin r, u) \<notin> set pq))"

definition relaxed ::
  "('n \<rightharpoonup> dbl) \<Rightarrow> 'n \<Rightarrow> ('n \<times> WeightedEdge) list \<Rightarrow> bool" where
  "relaxed d u es =
     (\<forall>v w. (v, w) \<in> set es \<longrightarrow>
        (\<exists>r y. d u = Some (Fin r) \<and> d v = Some y \<and> y \<le> dadd (Fin r) (weight w)))"

fun back_sum :: "('n \<times> WeightedEdge) list \<Rightarrow> dbl" where
  "back_sum [] = Fin 0"
| "back_sum (e # rs) = dadd (back_sum rs) (weight (snd e))"

fun back_walk ::
  "('n, WeightedEdge) Graph \<Rightarrow> ('n \<rightharpoonup> dbl) \<Rightarrow> ('n \<rightharpoonup> 'n) \<Rightarrow> (dbl \<times> 'n) list \<Rightarrow>
   'n \<Rightarrow> 'n \<Rightarrow> ('n \<times> WeightedEdge) list \<Rightarrow> bool" where
  "back_walk g d p pq s v [] = (v = s)"
| "back_walk g d p pq s v ((v', w) # rs) =
     (v' = v \<and> v \<noteq> s \<and> hasNode g v \<and>
      (case p v of
         None \<Rightarrow> False
       | Some u \<Rightarrow>
           settled g d pq u \<and> (v, w) \<in> set (entries g u) \<and>
           d u = Some (back_sum rs) \<and>
           d v = Some (dadd (back_sum rs) (weight w)) \<and>
           back_walk g d p pq s u rs))"

definition base_inv ::
  "('n, WeightedEdge) Graph \<Rightarrow> 'n \<Rightarrow> ('n \<rightharpoonup> dbl) \<Rightarrow> ('n \<rightharpoonup> 'n) \<Rightarrow> (dbl \<times> 'n) list \<Rightarrow> bool" where
  "base_inv g s d p pq =
     ((\<forall>u. hasNode g u \<longrightarrow> d u \<noteq> None) \<and>
      (\<forall>u. \<not> hasNode g u \<longrightarrow> d u = None \<or> d u = Some (Fin 0)) \<and>
      hasNode g s \<and> d s = Some (Fin 0) \<and>
      (\<forall>x v. (x, v) \<in> set pq \<longrightarrow>
         hasNode g v \<and> (\<exists>r y. x = Fin r \<and> 0 \<le> r \<and> d v = Some (Fin y) \<and> y \<le> r)) \<and>
      distinct pq \<and>
      (\<forall>u r x v. settled g d pq u \<longrightarrow> d u = Some (Fin r) \<longrightarrow> (x, v) \<in> set pq \<longrightarrow> Fin r \<le> x) \<and>
      (\<forall>v r. hasNode g v \<longrightarrow> d v = Some (Fin r) \<longrightarrow> (\<exists>rs. back_walk g d p pq s v rs)) \<and>
      p s = None \<and>
      (\<forall>v. p v \<noteq> None \<longrightarrow> hasNode g v \<and> (\<exists>r. d v = Some (Fin r))) \<and>
      (\<forall>v y. d v = Some y \<longrightarrow> is_dist y))"

definition dinv ::
  "('n, WeightedEdge) Graph \<Rightarrow> 'n \<Rightarrow> ('n \<rightharpoonup> dbl) \<times> ('n \<rightharpoonup> 'n) \<times> (dbl \<times> 'n) list \<Rightarrow> bool" where
  "dinv g s st =
     (case st of (d, p, pq) \<Rightarrow>
        base_inv g s d p pq \<and> (\<forall>u. settled g d pq u \<longrightarrow> relaxed d u (entries g u)))"

definition rinv ::
  "('n, WeightedEdge) Graph \<Rightarrow> 'n \<Rightarrow> 'n \<Rightarrow> real \<Rightarrow> ('n \<times> WeightedEdge) list \<Rightarrow>
   ('n \<rightharpoonup> dbl) \<times> ('n \<rightharpoonup> 'n) \<times> (dbl \<times> 'n) list \<Rightarrow> bool" where
  "rinv g s u r done st =
     (case st of (d, p, pq) \<Rightarrow>
        base_inv g s d p pq \<and> settled g d pq u \<and> d u = Some (Fin r) \<and> 0 \<le> r \<and>
        (\<forall>x y. settled g d pq x \<longrightarrow> d x = Some (Fin y) \<longrightarrow> y \<le> r) \<and>
        (\<forall>x. settled g d pq x \<longrightarrow> x \<noteq> u \<longrightarrow> relaxed d x (entries g x)) \<and>
        relaxed d u done)"

definition relax1 ::
  "'n \<Rightarrow> dbl \<Rightarrow> 'n \<times> WeightedEdge \<Rightarrow>
   ('n \<rightharpoonup> dbl) \<times> ('n \<rightharpoonup> 'n) \<times> (dbl \<times> 'n) list \<Rightarrow>
   ('n \<rightharpoonup> dbl) \<times> ('n \<rightharpoonup> 'n) \<times> (dbl \<times> 'n) list" where
  "relax1 u du e st =
     (case st of (d, p, pq) \<Rightarrow>
        (let nd = dadd du (weight (snd e)) in
         case dist_at d (fst e) of
           (d1, dv) \<Rightarrow>
             if nd < dv then (d1(fst e \<mapsto> nd), p(fst e \<mapsto> u), (nd, fst e) # pq)
             else (d1, p, pq)))"

section \<open>Example data\<close>

text \<open>A simulator with two registered devices.\<close>

definition sim2 :: NetworkSimulator where
  "sim2 = snd (addDevice (snd (addDevice NetworkSimulator_new
            (Some \<lparr>dev_id = 1, name = ''R1''\<rparr>))) (Some \<lparr>dev_id = 2, name = ''S1''\<rparr>))"

definition pkt_ex :: "int \<Rightarrow> Packet" where
  "pkt_ex t = \<lparr>src = ''a'', dst = ''c'', ttl = t, size_bytes = 1500, hops = []\<rparr>"

definition link_slow :: Link where
  "link_slow = \<lparr>latencyMs = 3, bandwidthMbps = 20, reliability = 98 / 100\<rparr>"

definition link_fast :: Link where
  "link_fast = \<lparr>latencyMs = 1, bandwidthMbps = 100, reliability = 999 / 1000\<rparr>"

text \<open>A topology with two parallel links from \<open>a\<close> to \<open>b\<close>, the slow one first, and no link from \<open>b\<close> to \<open>c\<close>.\<close>

definition sim_par :: NetworkSimulator where
  "sim_par = \<lparr>graph = \<lparr>adjacency = [''a'' \<mapsto> [(''b'', link_slow), (''b'', link_fast)],
                                      ''b'' \<mapsto> [(''a'', link_slow)], ''c'' \<mapsto> []],
                         directed = True\<rparr>,
              devices = Map.empty\<rparr>"

text \<open>The undirected graph with the edges 1-2, 1-3 and 2-4.\<close>

definition graph_ex :: "(nat, int) Graph" where
  "graph_ex = addEdge (addEdge (addEdge (Graph_new False) 1 2 0) 1 3 0) 2 4 0"

text \<open>A weighted graph with the edges 1-2 (5), 2-3 (2), 1-3 (9) and the isolated node 4.\<close>

definition wg_ex :: "(nat, WeightedEdge) Graph" where
  "wg_ex = addEdge (addEdge (addEdge (addNode (addNode (addNode (addNode (Graph_new True) 1) 2) 3) 4)
              1 2 \<lparr>weight = 5\<rparr>) 2 3 \<lparr>weight = 2\<rparr>) 1 3 \<lparr>weight = 9\<rparr>"

text \<open>
  A graph on which rounding decides: the edges 1-2 of weight \<open>1\<close>, 1-3 of weight
  \<open>1 + 2 ^ -52\<close>, the double next after \<open>1\<close>, and 2-3 of weight \<open>3 * 2 ^ -54\<close>.
\<close>

definition g_round :: "(nat, WeightedEdge) Graph" where
  "g_round = addEdge (addEdge (addEdge (Graph_new True)
               1 2 \<lparr>weight = 1\<rparr>)
               1 3 \<lparr>weight = 4503599627370497 / 4503599627370496\<rparr>)
               2 3 \<lparr>weight = 3 / 18014398509481984\<rparr>"

text \<open>
  A graph on which a small weight is absorbed: the edges 1-3 of weight \<open>1 / 2\<close>, 1-2 of
  weight \<open>1\<close>, 2-3 of weight \<open>0\<close> and 3-4 of weight \<open>2 ^ 60\<close>.
\<close>

definition g_absorb :: "(nat, WeightedEdge) Graph" where
  "g_absorb = addEdge (addEdge (addEdge (addEdge (Graph_new True)
                1 3 \<lparr>weight = 1 / 2\<rparr>)
                1 2 \<lparr>weight = 1\<rparr>)
                2 3 \<lparr>weight = 0\<rparr>)
                3 4 \<lparr>weight = 1152921504606846976\<rparr>"

text \<open>A graph on which the sum overflows: the edges 1-2 and 2-3, each of weight \<open>2 ^ 1023\<close>.\<close>

definition g_over :: "(nat, WeightedEdge) Graph" where
  "g_over = addEdge (addEdge (Graph_new True) 1 2 \<lparr>weight = 2 ^ 1023\<rparr>) 2 3 \<lparr>weight = 2 ^ 1023\<rparr>"

section \<open>Properties of the graph container\<close>

lemma entries_addNode: "entries (addNode g n) x = entries g x"
  by (auto simp: entries_def addNode_def split: option.splits)

lemma directed_addNode: "directed (addNode g n) = directed g"
  by (simp add: addNode_def split: option.splits)

lemma hasNode_addNode: "hasNode (addNode g n) x = (x = n \<or> hasNode g x)"
  by (auto simp: hasNode_def addNode_def split: option.splits)

lemma directed_addEdge: "directed (addEdge g u v e) = directed g"
  by (simp add: addEdge_def Let_def directed_addNode)

lemma hasNode_addEdge: "hasNode (addEdge g u v e) x = (x = u \<or> x = v \<or> hasNode g x)"
  by (auto simp: addEdge_def Let_def hasNode_def push_back_at_def addNode_def split: option.splits)

lemma entries_addEdge:
  "entries (addEdge g u v e) x =
     entries g x @ (if x = u then [(v, e)] else [])
                 @ (if \<not> directed g \<and> x = v then [(u, e)] else [])"
  by (auto simp: addEdge_def Let_def entries_def push_back_at_def addNode_def split: option.splits)

lemma getNeighbors_entries: "getNeighbors g x = map fst (entries g x)"
  by (simp add: getNeighbors_def entries_def split: option.splits)

lemma getNeighbors_addEdge_directed:
  "directed g \<Longrightarrow> getNeighbors (addEdge g u v e) x = getNeighbors g x @ (if x = u then [v] else [])"
  by (simp add: getNeighbors_entries entries_addEdge)

lemma directed_fold_addEdge: "directed (fold (\<lambda>e h. addEdge h u v e) es g) = directed g"
  by (induction es arbitrary: g) (simp_all add: directed_addEdge)

lemma count_fold_addEdge:
  "directed g \<Longrightarrow>
   count_list (getNeighbors (fold (\<lambda>e h. addEdge h u v e) es g) u) v
     = count_list (getNeighbors g u) v + length es"
  by (induction es arbitrary: g) (simp_all add: directed_addEdge getNeighbors_addEdge_directed)

text \<open>
  Claim C5. After \<open>addEdge(u,v,e)\<close> both endpoints exist. On a directed graph the call
  appends \<open>v\<close> once to \<open>getNeighbors(u)\<close> and changes the neighbours of no other node, so
  no mirror entry \<open>u\<close> is put into \<open>getNeighbors(v)\<close>; adding the edge once per element
  of a list of payloads raises the number of occurrences of \<open>v\<close> in \<open>getNeighbors(u)\<close>
  by exactly the length of the list (parallel edges are kept). On an undirected graph
  the call appends \<open>(v,e)\<close> to the entries of \<open>u\<close> and the mirror entry \<open>(u,e)\<close>, with
  the same payload, to the entries of \<open>v\<close>.
\<close>

theorem addEdge_neighbors:
  "hasNode (addEdge g u v e) u \<and> hasNode (addEdge g u v e) v \<and>
   (if directed g
    then (\<forall>x. getNeighbors (addEdge g u v e) x = getNeighbors g x @ (if x = u then [v] else [])) \<and>
         count_list (getNeighbors (fold (\<lambda>e h. addEdge h u v e) es g) u) v
           = count_list (getNeighbors g u) v + length es
    else (\<forall>x. entries (addEdge g u v e) x =
               entries g x @ (if x = u then [(v, e)] else []) @ (if x = v then [(u, e)] else [])) \<and>
         v \<in> set (getNeighbors (addEdge g u v e) u) \<and>
         u \<in> set (getNeighbors (addEdge g u v e) v) \<and>
         (u, e) \<in> set (entries (addEdge g u v e) v))"
proof (cases "directed g")
  case True
  then show ?thesis
    by (simp add: hasNode_addEdge getNeighbors_addEdge_directed count_fold_addEdge)
next
  case False
  then show ?thesis
    by (simp add: hasNode_addEdge entries_addEdge getNeighbors_entries)
qed

theorem addEdge_neighbors_witness:
  "getNeighbors (addEdge (addEdge (Graph_new True) (1::nat) 2 (7::int)) 1 2 8) 1 = [2, 2] \<and>
   getNeighbors (addEdge (addEdge (Graph_new True) (1::nat) 2 (7::int)) 1 2 8) 2 = [] \<and>
   getNeighbors (addEdge (Graph_new True) (3::nat) 3 (7::int)) 3 = [3] \<and>
   count_list (getNeighbors (fold (\<lambda>e h. addEdge h 1 2 e) [7, 8, 9] (Graph_new True :: (nat, int) Graph)) 1) 2 = 3 \<and>
   entries (addEdge (Graph_new False) (1::nat) 2 (7::int)) 1 = [(2, 7)] \<and>
   entries (addEdge (Graph_new False) (1::nat) 2 (7::int)) 2 = [(1, 7)]"
  using addEdge_neighbors [of "addEdge (Graph_new True) (1::nat) 2 (7::int)" 1 2 8 "[]"]
    addEdge_neighbors [of "Graph_new True :: (nat, int) Graph" 1 2 7 "[7, 8, 9]"]
    addEdge_neighbors [of "Graph_new True :: (nat, int) Graph" 3 3 7 "[]"]
    addEdge_neighbors [of "Graph_new False :: (nat, int) Graph" 1 2 7 "[]"]
  by (simp add: directed_addEdge Graph_new_def getNeighbors_def entries_def)

text \<open>
  Claim C6. After \<open>removeNode(n)\<close>, \<open>hasNode(n)\<close> is false and no adjacency sequence of
  a remaining node holds a pair that refers to \<open>n\<close>.
\<close>

theorem removeNode_no_dangling:
  "\<not> hasNode (removeNode g n) n \<and>
   (\<forall>u ps. adjacency (removeNode g n) u = Some ps \<longrightarrow> n \<notin> fst ` set ps) \<and>
   (\<forall>u. n \<notin> set (getNeighbors (removeNode g n) u))"
proof -
  have a: "adjacency (removeNode g n) u = Some ps \<Longrightarrow> n \<notin> fst ` set ps" for u ps
    by (cases "adjacency g u") (auto simp: removeNode_def split: if_splits)
  have "n \<notin> set (getNeighbors (removeNode g n) u)" for u
    using a [of u] by (cases "adjacency (removeNode g n) u") (auto simp: getNeighbors_def)
  moreover have "\<not> hasNode (removeNode g n) n"
    by (simp add: hasNode_def removeNode_def)
  ultimately show ?thesis using a by blast
qed

theorem removeNode_no_dangling_witness:
  "adjacency (removeNode \<lparr>adjacency = [1 \<mapsto> [(2::nat, 5::int), (3, 6)], 2 \<mapsto> [(1, 5)], 3 \<mapsto> []], directed = True\<rparr> 2) 1
     = Some [(3, 6)] \<and>
   2 \<notin> fst ` set [(3::nat, 6::int)] \<and>
   \<not> hasNode (removeNode \<lparr>adjacency = [1 \<mapsto> [(2::nat, 5::int), (3, 6)], 2 \<mapsto> [(1, 5)], 3 \<mapsto> []], directed = True\<rparr> 2) 2"
  using removeNode_no_dangling [of "\<lparr>adjacency = [1 \<mapsto> [(2::nat, 5::int), (3, 6)], 2 \<mapsto> [(1, 5)], 3 \<mapsto> []], directed = True\<rparr>" 2]
  by (simp add: removeNode_def)

section \<open>Properties of the link cost\<close>

text \<open>
  Claim C4, as amended. \<open>costForBytes(bytes)\<close> is
  \<open>latencyMs/1000 + bytes*8/(bandwidthMbps*1e6)\<close> when \<open>bandwidthMbps > 0\<close> and
  \<open>latencyMs/1000 + 1e9\<close> otherwise; for a link with \<open>bandwidthMbps = 0\<close> and a
  latency that is not negative the cost is at least \<open>1e9\<close>, whatever the byte count.
\<close>

theorem costForBytes_value:
  "costForBytes l bytes =
     (if bandwidthMbps l > 0
      then latencyMs l / 1000 + real (unat bytes) * 8 / (bandwidthMbps l * 1000000)
      else latencyMs l / 1000 + 1000000000) \<and>
   (bandwidthMbps l = 0 \<and> 0 \<le> latencyMs l \<longrightarrow> costForBytes l bytes \<ge> 1000000000)"
  by (simp add: costForBytes_def)

theorem costForBytes_value_witness:
  "bandwidthMbps \<lparr>latencyMs = 5, bandwidthMbps = 0, reliability = 1\<rparr> = 0 \<and>
   0 \<le> latencyMs \<lparr>latencyMs = 5, bandwidthMbps = 0, reliability = 1\<rparr> \<and>
   costForBytes \<lparr>latencyMs = 5, bandwidthMbps = 0, reliability = 1\<rparr> 1000 \<ge> 1000000000 \<and>
   costForBytes \<lparr>latencyMs = 1, bandwidthMbps = 100, reliability = 1\<rparr> 1000 = 108 / 100000"
  using costForBytes_value [of "\<lparr>latencyMs = 5, bandwidthMbps = 0, reliability = 1\<rparr>" 1000]
    costForBytes_value [of "\<lparr>latencyMs = 1, bandwidthMbps = 100, reliability = 1\<rparr>" 1000]
  by simp

text \<open>
  With a negative latency the cost of a zero-bandwidth link is below \<open>1e9\<close>: the
  values \<open>-1000\<close>, \<open>-1\<close> and \<open>999999999\<close> are exact doubles as well.
\<close>

theorem costForBytes_zero_bandwidth_counterexample:
  "bandwidthMbps \<lparr>latencyMs = - 1000, bandwidthMbps = 0, reliability = 1\<rparr> = 0 \<and>
   costForBytes \<lparr>latencyMs = - 1000, bandwidthMbps = 0, reliability = 1\<rparr> 0 = 999999999 \<and>
   \<not> costForBytes \<lparr>latencyMs = - 1000, bandwidthMbps = 0, reliability = 1\<rparr> 0 \<ge> 1000000000"
  by (simp add: costForBytes_def)

section \<open>Properties of the simulator\<close>

lemma directed_addDevice: "directed (graph (snd (addDevice s d))) = directed (graph s)"
  by (cases d) (simp_all add: addDevice_def directed_addNode)

lemma directed_connect: "directed (graph (snd (connect s a b l bidir))) = directed (graph s)"
  by (simp add: connect_def Let_def directed_addEdge)

lemma connect_entries:
  assumes "hasNode (graph s) a" "hasNode (graph s) b" "directed (graph s)"
  shows "entries (graph (snd (connect s a b l bidir))) x =
           entries (graph s) x @ (if x = a then [(b, l)] else [])
                               @ (if bidir \<and> x = b then [(a, l)] else [])"
  using assms by (simp add: connect_def Let_def entries_addEdge directed_addEdge)

text \<open>
  Claim C7. \<open>addDevice\<close> throws (its \<open>runtime_error\<close> for an invalid argument) exactly
  when the device pointer is null, and \<open>connect(a, b, link, bidir)\<close> throws (its
  \<open>runtime_error\<close> for a node that is not found) exactly when \<open>a\<close> or \<open>b\<close> is not a node of
  the graph; a call that throws leaves the simulator, graph and registry, as it was. A
  \<open>connect\<close> that does not throw leaves the registry alone and appends the entry \<open>(b, link)\<close>
  to the adjacency sequence of \<open>a\<close> and, when \<open>bidir\<close> holds, the entry \<open>(a, link)\<close> to
  that of \<open>b\<close>, and changes nothing else (the simulator's graph is directed).
\<close>

theorem simulator_errors:
  "(fst (addDevice s d) = Inl (runtime_error ''Null device'') \<longleftrightarrow> d = None) \<and>
   (isl (fst (addDevice s d)) \<longleftrightarrow> d = None) \<and>
   (isl (fst (addDevice s d)) \<longrightarrow> snd (addDevice s d) = s) \<and>
   (fst (connect s a b l bidir) = Inl (runtime_error ''Unknown node in connect()'')
      \<longleftrightarrow> \<not> hasNode (graph s) a \<or> \<not> hasNode (graph s) b) \<and>
   (isl (fst (connect s a b l bidir)) \<longleftrightarrow> \<not> hasNode (graph s) a \<or> \<not> hasNode (graph s) b) \<and>
   (isl (fst (connect s a b l bidir)) \<longrightarrow> snd (connect s a b l bidir) = s) \<and>
   (\<not> isl (fst (connect s a b l bidir)) \<and> directed (graph s) \<longrightarrow>
      devices (snd (connect s a b l bidir)) = devices s \<and>
      (\<forall>x. entries (graph (snd (connect s a b l bidir))) x =
            entries (graph s) x @ (if x = a then [(b, l)] else [])
                                @ (if bidir \<and> x = b then [(a, l)] else [])))"
proof -
  have 1: "(fst (addDevice s d) = Inl (runtime_error ''Null device'') \<longleftrightarrow> d = None)"
    by (cases d) (simp_all add: addDevice_def)
  have 2: "(isl (fst (addDevice s d)) \<longleftrightarrow> d = None)"
    by (cases d) (simp_all add: addDevice_def)
  have 3: "isl (fst (addDevice s d)) \<longrightarrow> snd (addDevice s d) = s"
    by (cases d) (simp_all add: addDevice_def)
  have 4: "(fst (connect s a b l bidir) = Inl (runtime_error ''Unknown node in connect()'')
      \<longleftrightarrow> \<not> hasNode (graph s) a \<or> \<not> hasNode (graph s) b)"
    by (simp add: connect_def Let_def)
  have 5: "(isl (fst (connect s a b l bidir)) \<longleftrightarrow> \<not> hasNode (graph s) a \<or> \<not> hasNode (graph s) b)"
    by (simp add: connect_def Let_def)
  have 6: "isl (fst (connect s a b l bidir)) \<longrightarrow> snd (connect s a b l bidir) = s"
    by (simp add: connect_def Let_def)
  have 7: "\<not> isl (fst (connect s a b l bidir)) \<and> directed (graph s) \<longrightarrow>
      devices (snd (connect s a b l bidir)) = devices s \<and>
      (\<forall>x. entries (graph (snd (connect s a b l bidir))) x =
            entries (graph s) x @ (if x = a then [(b, l)] else [])
                                @ (if bidir \<and> x = b then [(a, l)] else []))"
  proof (intro impI, elim conjE)
    assume n: "\<not> isl (fst (connect s a b l bidir))" and dir: "directed (graph s)"
    from n 5 have h: "hasNode (graph s) a" "hasNode (graph s) b" by auto
    have "devices (snd (connect s a b l bidir)) = devices s"
      using h by (simp add: connect_def Let_def)
    with connect_entries [OF h dir] show "devices (snd (connect s a b l bidir)) = devices s \<and>
      (\<forall>x. entries (graph (snd (connect s a b l bidir))) x =
            entries (graph s) x @ (if x = a then [(b, l)] else [])
                                @ (if bidir \<and> x = b then [(a, l)] else []))"
      by blast
  qed
  from 1 2 3 4 5 6 7 show ?thesis by blast
qed

lemma sim2_eq:
  "sim2 = \<lparr>graph = \<lparr>adjacency = [''R1'' \<mapsto> [], ''S1'' \<mapsto> []], directed = True\<rparr>,
           devices = [''R1'' \<mapsto> \<lparr>dev_id = 1, name = ''R1''\<rparr>, ''S1'' \<mapsto> \<lparr>dev_id = 2, name = ''S1''\<rparr>]\<rparr>"
  by (simp add: sim2_def addDevice_def NetworkSimulator_new_def Graph_new_def addNode_def)

theorem simulator_errors_witness:
  "isl (fst (addDevice sim2 None)) \<and> snd (addDevice sim2 None) = sim2 \<and>
   isl (fst (connect sim2 ''R1'' ''H9'' \<lparr>latencyMs = 1, bandwidthMbps = 100, reliability = 1\<rparr> True)) \<and>
   snd (connect sim2 ''R1'' ''H9'' \<lparr>latencyMs = 1, bandwidthMbps = 100, reliability = 1\<rparr> True) = sim2 \<and>
   \<not> isl (fst (connect sim2 ''R1'' ''S1'' \<lparr>latencyMs = 1, bandwidthMbps = 100, reliability = 1\<rparr> True)) \<and>
   directed (graph sim2) \<and>
   entries (graph (snd (connect sim2 ''R1'' ''S1'' \<lparr>latencyMs = 1, bandwidthMbps = 100, reliability = 1\<rparr> True))) ''R1''
     = [(''S1'', \<lparr>latencyMs = 1, bandwidthMbps = 100, reliability = 1\<rparr>)] \<and>
   entries (graph (snd (connect sim2 ''R1'' ''S1'' \<lparr>latencyMs = 1, bandwidthMbps = 100, reliability = 1\<rparr> True))) ''S1''
     = [(''R1'', \<lparr>latencyMs = 1, bandwidthMbps = 100, reliability = 1\<rparr>)]"
  using simulator_errors [of sim2 None "''R1''" "''H9''" "\<lparr>latencyMs = 1, bandwidthMbps = 100, reliability = 1\<rparr>" True]
    simulator_errors [of sim2 None "''R1''" "''S1''" "\<lparr>latencyMs = 1, bandwidthMbps = 100, reliability = 1\<rparr>" True]
  by (simp add: sim2_eq hasNode_def entries_def)

section \<open>Properties of packet replay\<close>

text \<open>The number of hops the loop performs from index \<open>i\<close> on.\<close>

lemma sendLoop_eq:
  "1 \<le> i \<Longrightarrow> i \<le> length path \<Longrightarrow>
   sendLoop g path i t pkt =
     (t + (\<Sum>j = i..<i + min (length path - i) (nat (ttl pkt)).
              hopCost g (path ! (j - 1)) (path ! j) (size_bytes pkt)),
      pkt\<lparr>ttl := ttl pkt - int (min (length path - i) (nat (ttl pkt))),
          hops := hops pkt @ take (min (length path - i) (nat (ttl pkt))) (drop i path)\<rparr>)"
proof (induction g path i t pkt rule: sendLoop.induct)
  case (1 g path i t pkt)
  show ?case
  proof (cases "i < length path")
    case False
    with "1.prems" have "length path - i = 0" by simp
    with False show ?thesis by (subst sendLoop.simps) simp
  next
    case True
    show ?thesis
    proof (cases "ttl pkt \<le> 0")
      case le: True
      then have "nat (ttl pkt) = 0" by simp
      with True le show ?thesis by (subst sendLoop.simps) simp
    next
      case pos: False
      define pkt' where "pkt' = addHop (decTTL pkt) (path ! i)"
      define c where "c = hopCost g (path ! (i - 1)) (path ! i) (size_bytes pkt)"
      define m where "m = min (length path - i) (nat (ttl pkt))"
      define m' where "m' = min (length path - (i + 1)) (nat (ttl pkt'))"
      have ttl': "ttl pkt' = ttl pkt - 1" and sz': "size_bytes pkt' = size_bytes pkt"
        and hops': "hops pkt' = hops pkt @ [path ! i]"
        by (simp_all add: pkt'_def addHop_def decTTL_def)
      have m: "m = Suc m'" using True pos by (simp add: m_def m'_def ttl')
      have step: "sendLoop g path i t pkt = sendLoop g path (i + 1) (t + c) pkt'"
        using True pos by (subst sendLoop.simps) (simp add: Let_def pkt'_def c_def)
      have ih: "sendLoop g path (i + 1) (t + c) pkt' =
        (t + c + (\<Sum>j = i + 1..<i + 1 + m'. hopCost g (path ! (j - 1)) (path ! j) (size_bytes pkt')),
         pkt'\<lparr>ttl := ttl pkt' - int m', hops := hops pkt' @ take m' (drop (i + 1) path)\<rparr>)"
        unfolding m'_def
        using "1.IH" [OF True pos refl refl refl, of ] True
        by (simp add: pkt'_def c_def)
      have sum: "(\<Sum>j = i..<i + m. hopCost g (path ! (j - 1)) (path ! j) (size_bytes pkt))
         = c + (\<Sum>j = i + 1..<i + 1 + m'. hopCost g (path ! (j - 1)) (path ! j) (size_bytes pkt))"
        unfolding m c_def by (simp add: sum.atLeast_Suc_lessThan)
      have tk: "take m (drop i path) = path ! i # take m' (drop (i + 1) path)"
        unfolding m using True by (simp add: Cons_nth_drop_Suc [symmetric])
      have rec: "pkt'\<lparr>ttl := ttl pkt' - int m', hops := hops pkt' @ take m' (drop (i + 1) path)\<rparr>
          = pkt\<lparr>ttl := ttl pkt - int m, hops := hops pkt @ take m (drop i path)\<rparr>"
        unfolding tk by (simp add: pkt'_def addHop_def decTTL_def m)
      show ?thesis
        unfolding step ih rec sz' m_def [symmetric] sum by simp
    qed
  qed
qed

lemma sendPacket_eq:
  assumes "2 \<le> length path"
  shows "sendPacket s path pkt =
     ((\<Sum>j = 1..<1 + min (length path - 1) (nat (ttl pkt)).
              hopCost (graph s) (path ! (j - 1)) (path ! j) (size_bytes pkt)),
      pkt\<lparr>ttl := ttl pkt - int (min (length path - 1) (nat (ttl pkt))),
          hops := hops pkt @ take (1 + min (length path - 1) (nat (ttl pkt))) path\<rparr>)"
proof -
  from assms obtain x rest where p: "path = x # rest" by (cases path) auto
  have "sendPacket s path pkt = sendLoop (graph s) path 1 0 (addHop pkt (hd path))"
    using assms by (simp add: sendPacket_def)
  also have "\<dots> = ((\<Sum>j = 1..<1 + min (length path - 1) (nat (ttl pkt)).
              hopCost (graph s) (path ! (j - 1)) (path ! j) (size_bytes pkt)),
      pkt\<lparr>ttl := ttl pkt - int (min (length path - 1) (nat (ttl pkt))),
          hops := hops pkt @ take (1 + min (length path - 1) (nat (ttl pkt))) path\<rparr>)"
    using assms by (subst sendLoop_eq) (simp_all add: addHop_def p drop_Suc)
  finally show ?thesis .
qed


lemma scanEntries_none: "v \<notin> fst ` set es \<Longrightarrow> scanEntries es v sz c = c"
  by (induction es) auto

lemma scanEntries_first:
  "v \<notin> fst ` set pre \<Longrightarrow> scanEntries (pre @ (v, l) # post) v sz c = costForBytes l sz"
  by (induction pre) auto

lemma hopCost_missing:
  "\<forall>es. adjacency g u = Some es \<longrightarrow> v \<notin> fst ` set es \<Longrightarrow> hopCost g u v sz = 1000000000"
  by (cases "adjacency g u") (simp_all add: hopCost_def scanEntries_none)

lemma cost_slow: "costForBytes link_slow 1500 = 36 / 10000"
  by (simp add: costForBytes_def link_slow_def)

lemma cost_fast: "costForBytes link_fast 1500 = 112 / 100000"
  by (simp add: costForBytes_def link_fast_def)

text \<open>
  Claim C3, as amended. A path of fewer than two nodes gives the total 0 and leaves the
  packet as it was. On a path of \<open>N \<ge> 2\<close> nodes \<open>sendPacket\<close> lowers the TTL by exactly
  \<open>min(N-1, max(0, initial TTL))\<close> and appends to the hop history the first node of the
  path followed by exactly that many of the next nodes of the path.
\<close>

theorem sendPacket_ttl_hops:
  "(length path < 2 \<longrightarrow> sendPacket s path pkt = (0, pkt)) \<and>
   (2 \<le> length path \<longrightarrow>
      ttl (snd (sendPacket s path pkt))
        = ttl pkt - min (int (length path) - 1) (max 0 (ttl pkt)) \<and>
      hops (snd (sendPacket s path pkt))
        = hops pkt @ hd path # take (nat (min (int (length path) - 1) (max 0 (ttl pkt)))) (tl path) \<and>
      length (hops (snd (sendPacket s path pkt)))
        = length (hops pkt) + 1 + nat (min (int (length path) - 1) (max 0 (ttl pkt))))"
proof (cases "length path < 2")
  case True
  then show ?thesis by (simp add: sendPacket_def)
next
  case False
  then have n: "2 \<le> length path" by simp
  then obtain x rest where p: "path = x # rest" by (cases path) auto
  have m: "nat (min (int (length path) - 1) (max 0 (ttl pkt))) = min (length path - 1) (nat (ttl pkt))"
    using n by arith
  have m2: "min (int (length path) - 1) (max 0 (ttl pkt)) = int (min (length path - 1) (nat (ttl pkt)))"
    using n by arith
  show ?thesis
    unfolding m m2 sendPacket_eq [OF n] using n by (auto simp: p)
qed

theorem sendPacket_ttl_hops_witness:
  "sendPacket sim_par [''a''] (pkt_ex 8) = (0, pkt_ex 8) \<and>
   ttl (snd (sendPacket sim_par [''a'', ''b'', ''a''] (pkt_ex 8))) = 6 \<and>
   hops (snd (sendPacket sim_par [''a'', ''b'', ''a''] (pkt_ex 8))) = [''a'', ''b'', ''a''] \<and>
   ttl (snd (sendPacket sim_par [''a'', ''b'', ''a''] (pkt_ex 1))) = 0 \<and>
   hops (snd (sendPacket sim_par [''a'', ''b'', ''a''] (pkt_ex 1))) = [''a'', ''b'']"
  using sendPacket_ttl_hops [of "[''a'']" sim_par "pkt_ex 8"]
    sendPacket_ttl_hops [of "[''a'', ''b'', ''a'']" sim_par "pkt_ex 8"]
    sendPacket_ttl_hops [of "[''a'', ''b'', ''a'']" sim_par "pkt_ex 1"]
  by (simp add: pkt_ex_def)

text \<open>
  With a negative initial TTL the loop stops at once and the TTL stays as it is, while
  \<open>min(N-1, initial TTL)\<close> is negative.
\<close>

theorem sendPacket_ttl_counterexample:
  "ttl (snd (sendPacket sim_par [''a'', ''b''] (pkt_ex (- 1)))) = - 1 \<and>
   ttl (pkt_ex (- 1)) - min (int (length [''a'', ''b'']) - 1) (ttl (pkt_ex (- 1))) = 0 \<and>
   ttl (snd (sendPacket sim_par [''a'', ''b''] (pkt_ex (- 1))))
     \<noteq> ttl (pkt_ex (- 1)) - min (int (length [''a'', ''b'']) - 1) (ttl (pkt_ex (- 1)))"
  by (simp add: sendPacket_def pkt_ex_def addHop_def)

text \<open>
  Claim C8. The cost \<open>sendPacket\<close> charges for a hop from \<open>u\<close> to \<open>v\<close> is the cost of the
  first entry toward \<open>v\<close> in the adjacency sequence of \<open>u\<close>, whatever entries toward \<open>v\<close>
  follow it, and the returned total is the sum of these costs over the hops performed.
\<close>

theorem sendPacket_first_match:
  "(adjacency (graph s) u = Some (pre @ (v, l) # post) \<and> v \<notin> fst ` set pre \<longrightarrow>
      hopCost (graph s) u v sz = costForBytes l sz) \<and>
   (2 \<le> length path \<longrightarrow>
      fst (sendPacket s path pkt)
        = (\<Sum>j = 1..<1 + min (length path - 1) (nat (ttl pkt)).
             hopCost (graph s) (path ! (j - 1)) (path ! j) (size_bytes pkt)))"
  by (auto simp: hopCost_def scanEntries_first sendPacket_eq)

text \<open>The slow link is charged, although the fast one is cheaper.\<close>

theorem sendPacket_first_match_witness:
  "adjacency (graph sim_par) ''a'' = Some ([] @ (''b'', link_slow) # [(''b'', link_fast)]) \<and>
   ''b'' \<notin> fst ` set ([] :: (string \<times> Link) list) \<and>
   hopCost (graph sim_par) ''a'' ''b'' 1500 = costForBytes link_slow 1500 \<and>
   fst (sendPacket sim_par [''a'', ''b''] (pkt_ex 8)) = costForBytes link_slow 1500 \<and>
   costForBytes link_fast 1500 < costForBytes link_slow 1500"
  using sendPacket_first_match [of sim_par "''a''" "[]" "''b''" link_slow "[(''b'', link_fast)]" 1500
      "[''a'', ''b'']" "pkt_ex 8"]
  by (simp add: sim_par_def pkt_ex_def cost_slow cost_fast)

text \<open>
  Claim C10, as amended. On a path of at least two nodes, if the hop number \<open>i\<close> (from
  \<open>path[i-1]\<close> to \<open>path[i]\<close>) is reached before the TTL runs out, that is \<open>i\<close> is at most
  the initial TTL, and \<open>path[i-1]\<close> has no adjacency entry toward \<open>path[i]\<close>, then
  \<open>sendPacket\<close> does not fail: the hop costs exactly \<open>1e9\<close>, the returned total is \<open>1e9\<close> plus
  the costs of the other hops performed, the TTL is lowered for this hop as for the
  others, and \<open>path[i]\<close> is appended to the hop history at its place.
\<close>

theorem sendPacket_missing_link:
  assumes "2 \<le> length path" and "1 \<le> i" and "i < length path" and "int i \<le> ttl pkt"
    and "\<forall>es. adjacency (graph s) (path ! (i - 1)) = Some es \<longrightarrow> path ! i \<notin> fst ` set es"
  shows "hopCost (graph s) (path ! (i - 1)) (path ! i) (size_bytes pkt) = 1000000000 \<and>
         i \<le> min (length path - 1) (nat (ttl pkt)) \<and>
         fst (sendPacket s path pkt)
           = 1000000000 + (\<Sum>j \<in> {1..<1 + min (length path - 1) (nat (ttl pkt))} - {i}.
                             hopCost (graph s) (path ! (j - 1)) (path ! j) (size_bytes pkt)) \<and>
         ttl (snd (sendPacket s path pkt)) = ttl pkt - int (min (length path - 1) (nat (ttl pkt))) \<and>
         hops (snd (sendPacket s path pkt)) ! (length (hops pkt) + i) = path ! i"
proof -
  define m where "m = min (length path - 1) (nat (ttl pkt))"
  have c: "hopCost (graph s) (path ! (i - 1)) (path ! i) (size_bytes pkt) = 1000000000"
    using assms(5) by (rule hopCost_missing)
  have im: "i \<le> m" using assms(1-4) unfolding m_def by arith
  then have mem: "i \<in> {1..<1 + m}" using assms(2) by simp
  have "(\<Sum>j = 1..<1 + m. hopCost (graph s) (path ! (j - 1)) (path ! j) (size_bytes pkt))
      = hopCost (graph s) (path ! (i - 1)) (path ! i) (size_bytes pkt)
        + (\<Sum>j \<in> {1..<1 + m} - {i}. hopCost (graph s) (path ! (j - 1)) (path ! j) (size_bytes pkt))"
    by (rule sum.remove [OF _ mem]) simp
  then have tot: "fst (sendPacket s path pkt)
      = 1000000000 + (\<Sum>j \<in> {1..<1 + m} - {i}.
                         hopCost (graph s) (path ! (j - 1)) (path ! j) (size_bytes pkt))"
    unfolding c by (simp add: sendPacket_eq [OF assms(1)] m_def)
  have t: "ttl (snd (sendPacket s path pkt)) = ttl pkt - int m"
    by (simp add: sendPacket_eq [OF assms(1)] m_def)
  have "hops (snd (sendPacket s path pkt)) = hops pkt @ take (1 + m) path"
    by (simp add: sendPacket_eq [OF assms(1)] m_def)
  then have h: "hops (snd (sendPacket s path pkt)) ! (length (hops pkt) + i) = path ! i"
    using im by (simp add: nth_append)
  from c im tot t h show ?thesis unfolding m_def by blast
qed

theorem sendPacket_missing_link_witness:
  "2 \<le> length [''a'', ''b'', ''c''] \<and> int 2 \<le> ttl (pkt_ex 8) \<and>
   ''c'' \<notin> fst ` set (entries (graph sim_par) ''b'') \<and>
   fst (sendPacket sim_par [''a'', ''b'', ''c''] (pkt_ex 8)) = 1000000000 + costForBytes link_slow 1500 \<and>
   ttl (snd (sendPacket sim_par [''a'', ''b'', ''c''] (pkt_ex 8))) = 6 \<and>
   hops (snd (sendPacket sim_par [''a'', ''b'', ''c''] (pkt_ex 8))) ! 2 = ''c''"
proof -
  have a: "\<forall>es. adjacency (graph sim_par) ([''a'', ''b'', ''c''] ! (2 - 1)) = Some es
          \<longrightarrow> [''a'', ''b'', ''c''] ! 2 \<notin> fst ` set es"
    by (simp add: sim_par_def)
  have e: "''c'' \<notin> fst ` set (entries (graph sim_par) ''b'')"
    by (simp add: sim_par_def entries_def)
  have s: "{1..<3} - {2::nat} = {1}" by auto
  have h: "hopCost (graph sim_par) ''a'' ''b'' 1500 = costForBytes link_slow 1500"
    by (simp add: hopCost_def sim_par_def)
  show ?thesis
    using e sendPacket_missing_link [of "[''a'', ''b'', ''c'']" 2 "pkt_ex 8" sim_par, OF _ _ _ _ a]
    by (simp add: pkt_ex_def s h numeral_2_eq_2)
qed

text \<open>
  With TTL 1 on the path \<open>a, b, c\<close> the replay stops after the hop to \<open>b\<close>: the missing
  link from \<open>b\<close> to \<open>c\<close> is never charged and \<open>c\<close> is not appended.
\<close>

theorem sendPacket_missing_link_counterexample:
  "2 \<le> length [''a'', ''b'', ''c''] \<and> 0 < ttl (pkt_ex 1) \<and>
   ''c'' \<notin> fst ` set (entries (graph sim_par) ''b'') \<and>
   sendPacket sim_par [''a'', ''b'', ''c''] (pkt_ex 1)
     = (costForBytes link_slow 1500, (pkt_ex 1)\<lparr>ttl := 0, hops := [''a'', ''b'']\<rparr>) \<and>
   fst (sendPacket sim_par [''a'', ''b'', ''c''] (pkt_ex 1)) < 1000000000 \<and>
   ''c'' \<notin> set (hops (snd (sendPacket sim_par [''a'', ''b'', ''c''] (pkt_ex 1))))"
proof -
  have h: "hopCost (graph sim_par) ''a'' ''b'' 1500 = costForBytes link_slow 1500"
    by (simp add: hopCost_def sim_par_def)
  have "sendPacket sim_par [''a'', ''b'', ''c''] (pkt_ex 1)
     = (costForBytes link_slow 1500, (pkt_ex 1)\<lparr>ttl := 0, hops := [''a'', ''b'']\<rparr>)"
    by (simp add: sendPacket_eq pkt_ex_def h)
  then show ?thesis
    by (simp add: cost_slow pkt_ex_def sim_par_def entries_def)
qed

section \<open>Properties of path reconstruction\<close>

lemma pathLoop_broken:
  "broken_after par start cur k \<Longrightarrow> pathLoop par start cur path = Some []"
proof (induction k arbitrary: cur path)
  case 0
  then show ?case by (subst pathLoop.simps) simp
next
  case (Suc k)
  then show ?case by (subst pathLoop.simps) (auto split: option.splits)
qed

lemma pathLoop_ends_aux:
  assumes "pathLoop par0 start0 cur0 path0 = Some xs0"
  shows "xs0 \<noteq> [] \<longrightarrow> hd xs0 = start0 \<and> last xs0 = hd (path0 @ [cur0])"
proof -
  let ?Q = "\<lambda>(par :: 'a \<rightharpoonup> 'a) start cur path xs.
              xs \<noteq> [] \<longrightarrow> hd xs = start \<and> last xs = hd (path @ [cur])"
  have step: "?Q par start cur path xs"
    if ih: "\<And>p s c pa y. f p s c pa = Some y \<Longrightarrow> ?Q p s c pa y"
      and body: "(if cur \<noteq> start
                then case par cur of None \<Rightarrow> Some []
                     | Some nxt \<Rightarrow> f par start nxt (path @ [cur])
                else Some (rev (path @ [start]))) = Some xs"
    for f par start cur path xs
  proof (cases "cur = start")
    case True
    with body have "xs = start # rev path" by simp
    then show ?thesis using True by (cases path) (simp_all add: last_rev)
  next
    case False
    show ?thesis
    proof (cases "par cur")
      case None
      with False body show ?thesis by simp
    next
      case (Some nxt)
      with False body have "f par start nxt (path @ [cur]) = Some xs" by simp
      then have "?Q par start nxt (path @ [cur]) xs"
        by (rule ih)
      then show ?thesis by (cases path) simp_all
    qed
  qed
  show ?thesis
    by (rule pathLoop.raw_induct [where P = ?Q, OF step assms])
qed

lemma pathLoop_ends:
  "pathLoop par start cur path = Some xs \<Longrightarrow> xs \<noteq> [] \<Longrightarrow>
   hd xs = start \<and> last xs = hd (path @ [cur])"
  by (drule pathLoop_ends_aux) simp

section \<open>Properties of the traversals\<close>

lemma finite_nodes_of: "finite (dom (adjacency g)) \<Longrightarrow> finite (nodes_of g)"
  by (simp add: nodes_of_def)

lemma getNeighbors_nodes_of: "set (getNeighbors g n) \<subseteq> nodes_of g"
proof (cases "adjacency g n")
  case None
  then show ?thesis by (simp add: getNeighbors_def)
next
  case (Some ps)
  then have "n \<in> dom (adjacency g)" by auto
  then show ?thesis unfolding nodes_of_def by blast
qed

lemma bfs_neighbors_visited: "fst (bfs_neighbors ns (vis, q)) = vis \<union> set ns"
  by (induction ns arbitrary: vis q) auto

lemma bfs_neighbors_queue:
  "\<exists>new. snd (bfs_neighbors ns (vis, q)) = q @ new \<and> set new = set ns - vis \<and> distinct new"
proof (induction ns arbitrary: vis q)
  case Nil
  then show ?case by simp
next
  case (Cons n ns)
  show ?case
  proof (cases "n \<in> vis")
    case True
    from Cons.IH [of vis q] obtain new where
      "snd (bfs_neighbors ns (vis, q)) = q @ new" "set new = set ns - vis" "distinct new"
      by blast
    with True show ?thesis by auto
  next
    case False
    from Cons.IH [of "insert n vis" "q @ [n]"] obtain new where
      n: "snd (bfs_neighbors ns (insert n vis, q @ [n])) = (q @ [n]) @ new"
        "set new = set ns - insert n vis" "distinct new"
      by blast
    have "snd (bfs_neighbors (n # ns) (vis, q)) = q @ (n # new)"
      using False n(1) by simp
    moreover have "set (n # new) = set (n # ns) - vis" using False n(2) by auto
    moreover have "distinct (n # new)" using n(2,3) by auto
    ultimately show ?thesis by blast
  qed
qed

lemma bfs_neighbors_nothing: "set ns \<subseteq> vis \<Longrightarrow> bfs_neighbors ns (vis, q) = (vis, q)"
  by (induction ns) auto

lemma bfs_loop_terminates:
  assumes fin: "finite N" and nb: "\<And>n. set (getNeighbors g n) \<subseteq> N"
  shows "distinct (out @ q) \<Longrightarrow> set (out @ q) \<subseteq> visited \<Longrightarrow>
         \<exists>vis' rest. bfs_loop g q visited out = Some (vis', out @ q @ rest) \<and>
                     distinct (out @ q @ rest)"
proof (induction "(q, visited, out)" arbitrary: q visited out
    rule: wf_induct_rule [OF wf_measures
      [of "[\<lambda>(q, vis, out). card (N - vis), \<lambda>(q, vis, out). length q]"]])
  case 1
  note IH = 1(1) and dist = 1(2) and sub = 1(3)
  show ?case
  proof (cases q)
    case Nil
    then show ?thesis using dist by (subst bfs_loop.simps) simp
  next
    case (Cons node q')
    define r where "r = bfs_neighbors (getNeighbors g node) (visited, q')"
    obtain new where new: "snd r = q' @ new"
        "set new = set (getNeighbors g node) - visited" "distinct new"
      unfolding r_def using bfs_neighbors_queue [of "getNeighbors g node" visited q'] by blast
    have vis': "fst r = visited \<union> set (getNeighbors g node)"
      unfolding r_def by (rule bfs_neighbors_visited)
    have step: "bfs_loop g q visited out = bfs_loop g (snd r) (fst r) (out @ [node])"
      unfolding Cons r_def by (subst bfs_loop.simps) (simp add: case_prod_beta)
    have d': "distinct ((out @ [node]) @ snd r)"
      using dist sub new unfolding Cons by auto
    have s': "set ((out @ [node]) @ snd r) \<subseteq> fst r"
      using sub new vis' unfolding Cons by auto
    have less: "((snd r, fst r, out @ [node]), (q, visited, out))
        \<in> measures [\<lambda>(q, vis, out). card (N - vis), \<lambda>(q, vis, out). length q]"
    proof (cases "new = []")
      case True
      then have "set (getNeighbors g node) \<subseteq> visited" using new(2) by auto
      then have "fst r = visited" using vis' by auto
      moreover have "length (snd r) < length q" using new(1) True Cons by simp
      ultimately show ?thesis by simp
    next
      case False
      then obtain x where x: "x \<in> set new" by (cases new) auto
      then have "x \<in> N - visited" "x \<notin> N - fst r"
        using new(2) nb [of node] vis' by auto
      moreover have "N - fst r \<subseteq> N - visited" using vis' by auto
      ultimately have "N - fst r \<subset> N - visited" by blast
      then have "card (N - fst r) < card (N - visited)"
        using fin by (intro psubset_card_mono) auto
      then show ?thesis by simp
    qed
    from IH [OF less d' s'] obtain v rest where
      res: "bfs_loop g (snd r) (fst r) (out @ [node]) = Some (v, (out @ [node]) @ snd r @ rest)"
        "distinct ((out @ [node]) @ snd r @ rest)"
      by blast
    have eq: "(out @ [node]) @ snd r @ rest = out @ q @ (new @ rest)"
      unfolding Cons new(1) by simp
    have "bfs_loop g q visited out = Some (v, out @ q @ (new @ rest))"
      using step res(1) unfolding eq by simp
    moreover have "distinct (out @ q @ (new @ rest))"
      using res(2) unfolding eq .
    ultimately show ?thesis by (intro exI conjI)
  qed
qed

lemma dfs_push_eq: "dfs_push ns st = rev ns @ st"
  by (induction ns arbitrary: st) auto

lemma dfs_loop_visited:
  "set st \<subseteq> visited \<Longrightarrow> dfs_loop g st visited out = Some (visited, out)"
proof (induction st)
  case Nil
  then show ?case by (subst dfs_loop.simps) simp
next
  case (Cons a st)
  then show ?case by (subst dfs_loop.simps) simp
qed

lemma dfs_loop_terminates:
  assumes fin: "finite N" and nb: "\<And>n. set (getNeighbors g n) \<subseteq> N"
  shows "distinct out \<Longrightarrow> set out \<subseteq> visited \<Longrightarrow> set st \<subseteq> N \<Longrightarrow>
         \<exists>vis' rest. dfs_loop g st visited out = Some (vis', out @ rest) \<and>
                     distinct (out @ rest)"
proof (induction "(st, visited, out)" arbitrary: st visited out
    rule: wf_induct_rule [OF wf_measures
      [of "[\<lambda>(st, vis, out). card (N - vis), \<lambda>(st, vis, out). length st]"]])
  case 1
  note IH = 1(1) and dist = 1(2) and sub = 1(3) and stN = 1(4)
  show ?case
  proof (cases st)
    case Nil
    then show ?thesis using dist by (subst dfs_loop.simps) simp
  next
    case (Cons node st')
    show ?thesis
    proof (cases "node \<in> visited")
      case True
      have step: "dfs_loop g st visited out = dfs_loop g st' visited out"
        unfolding Cons using True by (subst dfs_loop.simps) simp
      have less: "((st', visited, out), (st, visited, out))
        \<in> measures [\<lambda>(st, vis, out). card (N - vis), \<lambda>(st, vis, out). length st]"
        unfolding Cons by simp
      have "set st' \<subseteq> N" using stN Cons by auto
      from IH [OF less dist sub this] step show ?thesis by simp
    next
      case False
      define st2 where "st2 = dfs_push (getNeighbors g node) st'"
      have step: "dfs_loop g st visited out = dfs_loop g st2 (insert node visited) (out @ [node])"
        unfolding Cons st2_def using False by (subst dfs_loop.simps) simp
      have "node \<in> N" using stN Cons by auto
      then have "N - insert node visited \<subset> N - visited" using False by auto
      then have "card (N - insert node visited) < card (N - visited)"
        using fin by (intro psubset_card_mono) auto
      then have less: "((st2, insert node visited, out @ [node]), (st, visited, out))
        \<in> measures [\<lambda>(st, vis, out). card (N - vis), \<lambda>(st, vis, out). length st]"
        by simp
      have d': "distinct (out @ [node])" using dist sub False by auto
      have s': "set (out @ [node]) \<subseteq> insert node visited" using sub by auto
      have n': "set st2 \<subseteq> N" using stN nb [of node] unfolding st2_def dfs_push_eq Cons by auto
      from IH [OF less d' s' n'] obtain v rest where
        res: "dfs_loop g st2 (insert node visited) (out @ [node]) = Some (v, (out @ [node]) @ rest)"
        "distinct ((out @ [node]) @ rest)"
        by blast
      have "dfs_loop g st visited out = Some (v, out @ (node # rest))"
        using step res(1) by simp
      moreover have "distinct (out @ (node # rest))" using res(2) by simp
      ultimately show ?thesis by (intro exI conjI)
    qed
  qed
qed

text \<open>
  Claim C9. On every graph with finitely many nodes and from every start node, in the
  adjacency map or not, \<open>BFS::run\<close> and \<open>DFS::run\<close> terminate, print no node twice and print
  the start node first; when every neighbour of the start node is the start node itself
  (in particular when it has no neighbour) they print the start node and nothing else.
\<close>

theorem traversals_terminate:
  assumes "finite (dom (adjacency g))"
  shows "(\<exists>vis out. BFS_run g start = Some (vis, out) \<and> distinct out \<and> out \<noteq> [] \<and> hd out = start \<and>
            (set (getNeighbors g start) \<subseteq> {start} \<longrightarrow> out = [start])) \<and>
         (\<exists>vis out. DFS_run g start = Some (vis, out) \<and> distinct out \<and> out \<noteq> [] \<and> hd out = start \<and>
            (set (getNeighbors g start) \<subseteq> {start} \<longrightarrow> out = [start]))"
proof
  define N where "N = insert start (nodes_of g)"
  have fin: "finite N" using assms by (simp add: N_def finite_nodes_of)
  have nb: "set (getNeighbors g n) \<subseteq> N" for n
    using getNeighbors_nodes_of [of g n] by (auto simp: N_def)
  show "\<exists>vis out. BFS_run g start = Some (vis, out) \<and> distinct out \<and> out \<noteq> [] \<and> hd out = start \<and>
            (set (getNeighbors g start) \<subseteq> {start} \<longrightarrow> out = [start])"
  proof -
    from bfs_loop_terminates [OF fin nb, of "[]" "[start]" "{start}"]
    obtain vis rest where r: "BFS_run g start = Some (vis, start # rest)" "distinct (start # rest)"
      by (auto simp: BFS_run_def)
    have "rest = []" if "set (getNeighbors g start) \<subseteq> {start}"
    proof -
      have "BFS_run g start = bfs_loop g [] {start} [start]"
        unfolding BFS_run_def using bfs_neighbors_nothing [OF that]
        by (subst bfs_loop.simps) simp
      also have "\<dots> = Some ({start}, [start])" by (subst bfs_loop.simps) simp
      finally show ?thesis using r(1) by simp
    qed
    with r show ?thesis by auto
  qed
  show "\<exists>vis out. DFS_run g start = Some (vis, out) \<and> distinct out \<and> out \<noteq> [] \<and> hd out = start \<and>
            (set (getNeighbors g start) \<subseteq> {start} \<longrightarrow> out = [start])"
  proof -
    define st where "st = dfs_push (getNeighbors g start) []"
    have step: "DFS_run g start = dfs_loop g st {start} [start]"
      unfolding DFS_run_def st_def by (subst dfs_loop.simps) simp
    have "set st \<subseteq> N" using nb [of start] by (simp add: st_def dfs_push_eq)
    from dfs_loop_terminates [OF fin nb _ _ this, of "[start]" "{start}"]
    obtain vis rest where r: "DFS_run g start = Some (vis, start # rest)" "distinct (start # rest)"
      unfolding step by auto
    have "rest = []" if "set (getNeighbors g start) \<subseteq> {start}"
    proof -
      have "set st \<subseteq> {start}" using that by (simp add: st_def dfs_push_eq)
      from dfs_loop_visited [OF this, of g "[start]"] step r(1) show ?thesis by simp
    qed
    with r show ?thesis by auto
  qed
qed


lemma graph_ex_eq:
  "graph_ex = \<lparr>adjacency = [1 \<mapsto> [(2, 0), (3, 0)], 2 \<mapsto> [(1, 0), (4, 0)], 3 \<mapsto> [(1, 0)], 4 \<mapsto> [(2, 0)]],
               directed = False\<rparr>"
  by (auto simp: graph_ex_def addEdge_def Graph_new_def addNode_def push_back_at_def Let_def)

lemma graph_ex_neighbors:
  "getNeighbors graph_ex (Suc 0) = [2, 3]" "getNeighbors graph_ex 2 = [1, 4]"
  "getNeighbors graph_ex 3 = [1]" "getNeighbors graph_ex 4 = [2]" "getNeighbors graph_ex 9 = []"
  by (simp_all add: graph_ex_eq getNeighbors_def)

lemma bfs_ex: "map_option snd (BFS_run graph_ex 1) = Some [1, 2, 3, 4]"
  unfolding BFS_run_def
  apply (subst bfs_loop.simps, simp add: graph_ex_neighbors)
  apply (subst bfs_loop.simps, simp add: graph_ex_neighbors)
  apply (subst bfs_loop.simps, simp add: graph_ex_neighbors)
  apply (subst bfs_loop.simps, simp add: graph_ex_neighbors)
  apply (subst bfs_loop.simps, simp add: graph_ex_neighbors)
  done

lemma dfs_ex: "map_option snd (DFS_run graph_ex 1) = Some [1, 3, 2, 4]"
  unfolding DFS_run_def
  apply (subst dfs_loop.simps, simp add: graph_ex_neighbors)
  apply (subst dfs_loop.simps, simp add: graph_ex_neighbors)
  apply (subst dfs_loop.simps, simp add: graph_ex_neighbors)
  apply (subst dfs_loop.simps, simp add: graph_ex_neighbors)
  apply (subst dfs_loop.simps, simp add: graph_ex_neighbors)
  apply (subst dfs_loop.simps, simp add: graph_ex_neighbors)
  apply (subst dfs_loop.simps, simp add: graph_ex_neighbors)
  apply (subst dfs_loop.simps, simp add: graph_ex_neighbors)
  done

theorem traversals_terminate_witness:
  "finite (dom (adjacency graph_ex)) \<and>
   map_option snd (BFS_run graph_ex 1) = Some [1, 2, 3, 4] \<and>
   map_option snd (DFS_run graph_ex 1) = Some [1, 3, 2, 4] \<and>
   distinct [1, 2, 3, 4::nat] \<and> distinct [1, 3, 2, 4::nat] \<and>
   set (getNeighbors graph_ex 9) \<subseteq> {9} \<and>
   map_option snd (BFS_run graph_ex 9) = Some [9] \<and>
   map_option snd (DFS_run graph_ex 9) = Some [9]"
proof -
  have f: "finite (dom (adjacency graph_ex))" by (simp add: graph_ex_eq)
  from traversals_terminate [OF f, of 9] bfs_ex dfs_ex f show ?thesis
    by (auto simp: graph_ex_neighbors)
qed

section \<open>Doubles\<close>

lemma Fin_less [simp]: "(Fin a < Fin b) = (a < b)"
  by (auto simp: less_dbl_def)

lemma Fin_less_PInf [simp]: "Fin a < PInf"
  by (simp add: less_dbl_def)

lemma PInf_not_less [simp]: "\<not> PInf < x"
  by (cases x) (simp_all add: less_dbl_def)

lemma PInf_le [simp]: "(PInf \<le> x) = (x = PInf)"
  by (cases x) simp_all

lemma le_PInf [simp]: "x \<le> PInf"
  by (cases x) simp_all

lemma Fin_le_cases: "Fin a \<le> x \<Longrightarrow> x = PInf \<or> (\<exists>b. x = Fin b \<and> a \<le> b)"
  by (cases x) simp_all

lemma MInf_le [simp]: "MInf \<le> x"
  by simp

lemma le_MInf [simp]: "(x \<le> MInf) = (x = MInf)"
  by (cases x) simp_all

lemma is_dist_PInf [simp]: "is_dist PInf"
  by (simp add: is_dist_def)

section \<open>Rounding\<close>

text \<open>
  The characteristic property of \<open>rnd_units\<close>: whenever \<open>y\<close> lies between two
  neighbouring doubles \<open>q * 2 ^ s\<close> and \<open>(q + 1) * 2 ^ s\<close>, it is rounded to the nearer one,
  and to the even one from halfway. Rounding is monotone, and it leaves a rounded value
  as it is.
\<close>

lemma rnd_units_char:
  assumes lo: "real q * 2 ^ s \<le> y" and hi: "y < real (q + 1) * 2 ^ s"
    and q: "q < 2 ^ 53" and n: "s = 0 \<or> 2 ^ 52 \<le> q"
  shows "rnd_units y =
           (if 2 ^ s < 2 * (y - real q * 2 ^ s) \<or> (2 * (y - real q * 2 ^ s) = 2 ^ s \<and> odd q)
            then (q + 1) * 2 ^ s else q * 2 ^ s)"
proof -
  define N where "N = nat \<lfloor>y\<rfloor>"
  have y0: "0 \<le> y" using lo by (meson mult_nonneg_nonneg of_nat_0_le_iff order_trans zero_le_numeral zero_le_power)
  have "real (q * 2 ^ s) \<le> y" using lo by simp
  then have "int (q * 2 ^ s) \<le> \<lfloor>y\<rfloor>" by (simp add: le_floor_iff)
  moreover have "0 \<le> \<lfloor>y\<rfloor>" using y0 by simp
  ultimately have lo': "q * 2 ^ s \<le> N" unfolding N_def by (simp only: le_nat_iff)
  have "y < real ((q + 1) * 2 ^ s)" using hi by (simp add: algebra_simps)
  then have "\<lfloor>y\<rfloor> < int ((q + 1) * 2 ^ s)" by (simp add: floor_less_iff)
  moreover have "0 \<le> \<lfloor>y\<rfloor>" using y0 by simp
  ultimately have hi': "N < (q + 1) * 2 ^ s" unfolding N_def by (simp only: nat_less_iff)
  have dv: "N div 2 ^ s = q"
    by (rule div_nat_eqI) (use lo' hi' in \<open>simp_all add: mult.commute\<close>)
  have fl: "floorlog 2 N - 53 = s"
  proof (cases "s = 0")
    case True
    with hi' q have "N < 2 ^ 53" by simp
    then have "floorlog 2 N \<le> 53" by (intro floorlog_leI) simp_all
    with True show ?thesis by simp
  next
    case False
    with n have q52: "2 ^ 52 \<le> q" by simp
    have "(2::nat) ^ (53 + s - 1) = 2 ^ 52 * 2 ^ s" by (simp add: power_add)
    also have "\<dots> \<le> q * 2 ^ s" using q52 by simp
    finally have "(2::nat) ^ (53 + s - 1) \<le> N" using lo' by simp
    then have ge: "53 + s \<le> floorlog 2 N" by (intro floorlog_geI) simp_all
    have "q + 1 \<le> 2 ^ 53" using q by (simp only: Suc_eq_plus1 [symmetric] Suc_le_eq)
    then have "(q + 1) * 2 ^ s \<le> 2 ^ 53 * 2 ^ s" by (rule mult_le_mono1)
    with hi' have "N < 2 ^ 53 * 2 ^ s" by (rule less_le_trans)
    then have "N < 2 ^ (53 + s)" by (simp only: power_add)
    then have "floorlog 2 N \<le> 53 + s" by (intro floorlog_leI) simp_all
    with ge show ?thesis by simp
  qed
  show ?thesis
    unfolding rnd_units_def Let_def N_def [symmetric] fl dv by simp
qed

lemma rnd_units_exist:
  assumes "0 \<le> y"
  shows "\<exists>q s. real q * 2 ^ s \<le> y \<and> y < real (q + 1) * 2 ^ s \<and> q < 2 ^ 53 \<and>
               (s = 0 \<or> 2 ^ 52 \<le> q)"
proof -
  define N where "N = nat \<lfloor>y\<rfloor>"
  define L where "L = floorlog 2 N"
  define s where "s = L - 53"
  define q where "q = N div 2 ^ s"
  have Ny: "real N \<le> y" "y < real N + 1" using assms unfolding N_def by linarith+
  have "q * 2 ^ s \<le> N" unfolding q_def by simp
  then have "real (q * 2 ^ s) \<le> real N" by (rule of_nat_mono)
  with Ny(1) have lo: "real q * 2 ^ s \<le> y" by simp
  have "N < (q + 1) * 2 ^ s"
    unfolding q_def using dividend_less_times_div [of "2 ^ s" N] by (simp add: mult.commute)
  then have "N + 1 \<le> (q + 1) * 2 ^ s" by simp
  then have "real (N + 1) \<le> real ((q + 1) * 2 ^ s)" by (rule of_nat_mono)
  with Ny(2) have hi: "y < real (q + 1) * 2 ^ s" by (simp add: algebra_simps)
  have bounds: "2 ^ (L - 1) \<le> N \<and> N < 2 ^ L" if "0 < N"
    unfolding L_def using floorlog_bounds [OF that, of 2] by simp
  have q53: "q < 2 ^ 53"
  proof (cases "N = 0")
    case True
    then show ?thesis by (simp add: q_def)
  next
    case False
    with bounds have NL: "N < 2 ^ L" by simp
    show ?thesis
    proof (cases "L \<le> 53")
      case True
      then have "s = 0" by (simp add: s_def)
      moreover have "(2::nat) ^ L \<le> 2 ^ 53" using True by (intro power_increasing) simp_all
      ultimately show ?thesis using NL by (simp add: q_def)
    next
      case False
      then have "L = 53 + s" by (simp add: s_def)
      with NL have "N < 2 ^ 53 * 2 ^ s" by (simp add: power_add)
      then show ?thesis unfolding q_def by (rule less_mult_imp_div_less)
    qed
  qed
  have n: "s = 0 \<or> 2 ^ 52 \<le> q"
  proof (cases "s = 0")
    case True
    then show ?thesis by simp
  next
    case False
    then have L: "L = 53 + s" by (simp add: s_def)
    then have "0 < L" by simp
    then have "0 < N" unfolding L_def by (simp add: floorlog_def split: if_splits)
    with bounds have "2 ^ (L - 1) \<le> N" by simp
    then have "2 ^ 52 * 2 ^ s \<le> N" by (simp add: L power_add)
    then have "(2 ^ 52 * 2 ^ s) div 2 ^ s \<le> N div 2 ^ s" by (rule div_le_mono)
    then have "2 ^ 52 \<le> q" by (simp add: q_def)
    then show ?thesis by simp
  qed
  from lo hi q53 n show ?thesis by blast
qed

lemma rnd_units_bounds:
  assumes lo: "real q * 2 ^ s \<le> y" and hi: "y < real (q + 1) * 2 ^ s"
    and q: "q < 2 ^ 53" and n: "s = 0 \<or> 2 ^ 52 \<le> q"
  shows "q * 2 ^ s \<le> rnd_units y" and "rnd_units y \<le> (q + 1) * 2 ^ s"
  unfolding rnd_units_char [OF assms] by simp_all

lemma rnd_units_mono:
  assumes "0 \<le> y1" and "y1 \<le> y2"
  shows "rnd_units y1 \<le> rnd_units y2"
proof -
  from rnd_units_exist [OF assms(1)] obtain q1 s1 where
    c1: "real q1 * 2 ^ s1 \<le> y1" "y1 < real (q1 + 1) * 2 ^ s1" "q1 < 2 ^ 53" "s1 = 0 \<or> 2 ^ 52 \<le> q1"
    by blast
  from assms have "0 \<le> y2" by simp
  from rnd_units_exist [OF this] obtain q2 s2 where
    c2: "real q2 * 2 ^ s2 \<le> y2" "y2 < real (q2 + 1) * 2 ^ s2" "q2 < 2 ^ 53" "s2 = 0 \<or> 2 ^ 52 \<le> q2"
    by blast
  note b1 = rnd_units_bounds [OF c1]
  note b2 = rnd_units_bounds [OF c2]
  consider "s1 = s2" | "s1 < s2" | "s2 < s1" by linarith
  then show ?thesis
  proof cases
    case 1
    have "real q1 * 2 ^ s2 < real (q2 + 1) * 2 ^ s2"
      using c1(1) c2(2) assms(2) unfolding 1 by linarith
    then have "real q1 < real (q2 + 1)" by simp
    then have le: "q1 \<le> q2" by simp
    show ?thesis
    proof (cases "q1 = q2")
      case True
      show ?thesis
        unfolding rnd_units_char [OF c1] rnd_units_char [OF c2]
        using assms(2) unfolding 1 True by auto
    next
      case False
      with le have "q1 + 1 \<le> q2" by simp
      then have "(q1 + 1) * 2 ^ s2 \<le> q2 * 2 ^ s2" by (rule mult_le_mono1)
      with b1(2) b2(1) show ?thesis unfolding 1 by linarith
    qed
  next
    case 2
    then have s2: "s2 \<noteq> 0" and ss: "s1 + 1 \<le> s2" by simp_all
    with c2(4) have q2: "2 ^ 52 \<le> q2" by simp
    have "(q1 + 1) * 2 ^ s1 \<le> 2 ^ 53 * 2 ^ s1" using c1(3) by (intro mult_le_mono1) simp
    also have "\<dots> = 2 ^ 52 * 2 ^ (s1 + 1)" by simp
    also have "\<dots> \<le> 2 ^ 52 * 2 ^ s2" using ss by (intro mult_le_mono2 power_increasing) simp_all
    also have "\<dots> \<le> q2 * 2 ^ s2" using q2 by (rule mult_le_mono1)
    finally show ?thesis using b1(2) b2(1) by linarith
  next
    case 3
    then have "s1 \<noteq> 0" and ss: "s2 + 1 \<le> s1" by simp_all
    with c1(4) have q1: "2 ^ 52 \<le> q1" by simp
    have "(q2 + 1) * 2 ^ s2 \<le> 2 ^ 53 * 2 ^ s2" using c2(3) by (intro mult_le_mono1) simp
    also have "\<dots> = 2 ^ 52 * 2 ^ (s2 + 1)" by simp
    also have "\<dots> \<le> 2 ^ 52 * 2 ^ s1" using ss by (intro mult_le_mono2 power_increasing) simp_all
    also have "\<dots> \<le> q1 * 2 ^ s1" using q1 by (rule mult_le_mono1)
    finally have "real ((q2 + 1) * 2 ^ s2) \<le> real (q1 * 2 ^ s1)" by (rule of_nat_mono)
    with c1(1) c2(2) assms(2) have False by (simp add: algebra_simps)
    then show ?thesis ..
  qed
qed

lemma rnd_units_exact:
  assumes "q < 2 ^ 53" and "s = 0 \<or> 2 ^ 52 \<le> q"
  shows "rnd_units (real (q * 2 ^ s)) = q * 2 ^ s"
proof -
  have lo: "real q * 2 ^ s \<le> real (q * 2 ^ s)" by simp
  have hi: "real (q * 2 ^ s) < real (q + 1) * 2 ^ s" by (simp add: algebra_simps)
  show ?thesis unfolding rnd_units_char [OF lo hi assms] by simp
qed

lemma rnd_units_small: "n < 2 ^ 53 \<Longrightarrow> rnd_units (real n) = n"
  using rnd_units_exact [of n 0] by simp

lemma rnd_units_idem:
  assumes "0 \<le> y"
  shows "rnd_units (real (rnd_units y)) = rnd_units y"
proof -
  from rnd_units_exist [OF assms] obtain q s where
    c: "real q * 2 ^ s \<le> y" "y < real (q + 1) * 2 ^ s" "q < 2 ^ 53" "s = 0 \<or> 2 ^ 52 \<le> q"
    by blast
  have "rnd_units y = q * 2 ^ s \<or> rnd_units y = (q + 1) * 2 ^ s"
    unfolding rnd_units_char [OF c] by simp
  then show ?thesis
  proof
    assume m: "rnd_units y = q * 2 ^ s"
    show ?thesis unfolding m by (rule rnd_units_exact [OF c(3,4)])
  next
    assume m: "rnd_units y = (q + 1) * 2 ^ s"
    show ?thesis
    proof (cases "q + 1 < 2 ^ 53")
      case True
      have "s = 0 \<or> 2 ^ 52 \<le> q + 1" using c(4) by auto
      from rnd_units_exact [OF True this] show ?thesis unfolding m .
    next
      case False
      with c(3) have q: "q + 1 = 2 ^ 53" by simp
      have e: "(q + 1) * 2 ^ s = 2 ^ 52 * 2 ^ (s + 1)" unfolding q by simp
      have "rnd_units (real (2 ^ 52 * 2 ^ (s + 1))) = 2 ^ 52 * 2 ^ (s + 1)"
        by (rule rnd_units_exact) simp_all
      then show ?thesis unfolding m e .
    qed
  qed
qed

lemma ulp_pos: "0 < ulp"
  by (simp add: ulp_def)

lemma rnd_nonneg_mono:
  assumes "0 \<le> x" and "x \<le> y"
  shows "rnd_nonneg x \<le> rnd_nonneg y"
proof -
  have "0 \<le> x / ulp" "x / ulp \<le> y / ulp"
    using assms ulp_pos by (simp_all add: divide_right_mono)
  then have "rnd_units (x / ulp) \<le> rnd_units (y / ulp)" by (rule rnd_units_mono)
  then show ?thesis
    using ulp_pos by (auto simp: rnd_nonneg_def Let_def)
qed

lemma rnd_nonneg_Fin:
  assumes "0 \<le> x" and "rnd_nonneg x = Fin r"
  shows "0 \<le> r" and "rnd_nonneg r = Fin r"
proof -
  define m where "m = rnd_units (x / ulp)"
  from assms(2) have ov: "\<not> overflow_units \<le> m" and r: "r = real m * ulp"
    unfolding rnd_nonneg_def Let_def m_def by (auto split: if_splits)
  show "0 \<le> r" unfolding r using ulp_pos by simp
  have "0 \<le> x / ulp" using assms(1) ulp_pos by simp
  then have "rnd_units (real m) = m" unfolding m_def by (rule rnd_units_idem)
  moreover have "r / ulp = real m" unfolding r using ulp_pos by simp
  ultimately show "rnd_nonneg r = Fin r"
    unfolding rnd_nonneg_def Let_def using ov r by simp
qed

lemma rnd_nonneg_lower: "Fin 0 \<le> rnd_nonneg x"
  using ulp_pos by (simp add: rnd_nonneg_def Let_def)

lemma rnd_nonneg_zero: "rnd_nonneg 0 = Fin 0"
proof -
  have "rnd_units (real 0) = 0" by (rule rnd_units_small) simp
  then show ?thesis by (simp add: rnd_nonneg_def Let_def overflow_units_def)
qed

lemma rnd_of_nonneg: "0 \<le> x \<Longrightarrow> rnd x = rnd_nonneg x"
  by (simp add: rnd_def)

lemma is_dist_zero: "is_dist (Fin 0)"
  by (simp add: is_dist_def rnd_of_nonneg rnd_nonneg_zero)

lemma is_dist_lower: "is_dist x \<Longrightarrow> Fin 0 \<le> x"
  by (cases x) (simp_all add: is_dist_def)

lemma dadd_is_dist:
  assumes "is_dist x" and "0 \<le> w"
  shows "is_dist (dadd x w)"
proof (cases x)
  case MInf
  with assms show ?thesis by (simp add: is_dist_def)
next
  case PInf
  then show ?thesis by (simp add: is_dist_def)
next
  case (Fin a)
  with assms have a: "0 \<le> a + w" by (simp add: is_dist_def)
  show ?thesis
  proof (cases "rnd_nonneg (a + w)")
    case MInf
    with rnd_nonneg_lower [of "a + w"] show ?thesis by simp
  next
    case PInf
    then show ?thesis using a Fin by (simp add: is_dist_def rnd_of_nonneg)
  next
    case (Fin r)
    from rnd_nonneg_Fin [OF a Fin] show ?thesis
      using a \<open>x = Fin a\<close> Fin by (simp add: is_dist_def rnd_of_nonneg)
  qed
qed

lemma dadd_mono1:
  assumes "Fin 0 \<le> x" and "x \<le> x'" and "0 \<le> w"
  shows "dadd x w \<le> dadd x' w"
proof (cases x')
  case MInf
  with assms show ?thesis by (cases x) simp_all
next
  case PInf
  then show ?thesis by simp
next
  case (Fin b)
  with assms obtain a where a: "x = Fin a" "0 \<le> a" "a \<le> b" by (cases x) simp_all
  then have "0 \<le> a + w" "a + w \<le> b + w" using assms(3) by simp_all
  then have "rnd_nonneg (a + w) \<le> rnd_nonneg (b + w)" by (rule rnd_nonneg_mono)
  then show ?thesis using a assms(3) Fin by (simp add: rnd_of_nonneg)
qed

lemma dadd_mono2:
  assumes "Fin 0 \<le> x" and "0 \<le> w" and "w \<le> w'"
  shows "dadd x w \<le> dadd x w'"
proof (cases x)
  case MInf
  with assms show ?thesis by simp
next
  case PInf
  then show ?thesis by simp
next
  case (Fin a)
  with assms have "0 \<le> a + w" "a + w \<le> a + w'" by simp_all
  then have "rnd_nonneg (a + w) \<le> rnd_nonneg (a + w')" by (rule rnd_nonneg_mono)
  then show ?thesis using Fin assms \<open>0 \<le> a + w\<close> by (simp add: rnd_of_nonneg)
qed

lemma dadd_ge:
  assumes "is_dist x" and "0 \<le> w"
  shows "x \<le> dadd x w"
proof (cases x)
  case MInf
  then show ?thesis by simp
next
  case PInf
  then show ?thesis by simp
next
  case (Fin a)
  with assms have a: "0 \<le> a" "rnd a = Fin a" by (simp_all add: is_dist_def)
  have "rnd_nonneg a \<le> rnd_nonneg (a + w)" using a(1) assms(2) by (intro rnd_nonneg_mono) simp_all
  then show ?thesis using Fin a assms(2) by (simp add: rnd_of_nonneg)
qed

lemma dadd_lower:
  assumes "Fin 0 \<le> x" and "0 \<le> w"
  shows "Fin 0 \<le> dadd x w"
proof (cases x)
  case MInf
  with assms show ?thesis by simp
next
  case PInf
  then show ?thesis by simp
next
  case (Fin a)
  with assms have "0 \<le> a + w" by simp
  then show ?thesis using Fin rnd_nonneg_lower [of "a + w"] by (simp add: rnd_of_nonneg)
qed

text \<open>The evaluation of a rounding, from the two neighbouring doubles.\<close>

lemma rnd_eval:
  assumes lo: "real q * 2 ^ s \<le> x * 2 ^ 1074" and hi: "x * 2 ^ 1074 < real (q + 1) * 2 ^ s"
    and q: "q < 2 ^ 53" and n: "s = 0 \<or> 2 ^ 52 \<le> q"
  shows "rnd x =
     (let m = (if 2 ^ s < 2 * (x * 2 ^ 1074 - real q * 2 ^ s) \<or>
                  (2 * (x * 2 ^ 1074 - real q * 2 ^ s) = 2 ^ s \<and> odd q)
               then (q + 1) * 2 ^ s else q * 2 ^ s)
      in if 2 ^ 2098 \<le> m then PInf else Fin (real m / 2 ^ 1074))"
proof -
  have "0 \<le> real q * 2 ^ s" by simp
  from this lo have "0 \<le> x * 2 ^ 1074" by (rule order_trans)
  then have x0: "0 \<le> x" by (simp add: zero_le_mult_iff)
  have u: "x / ulp = x * 2 ^ 1074" by (simp add: ulp_def)
  show ?thesis
    unfolding rnd_of_nonneg [OF x0] rnd_nonneg_def u rnd_units_char [OF lo hi q n]
      overflow_units_def Let_def
    by (simp add: ulp_def)
qed

lemma rnd_1: "rnd 1 = Fin 1"
  using rnd_eval [of "2 ^ 52" 1022 1] by simp

lemma rnd_2: "rnd 2 = Fin 2"
  using rnd_eval [of "2 ^ 52" 1023 2] by simp

lemma rnd_5: "rnd 5 = Fin 5"
  using rnd_eval [of "5 * 2 ^ 50" 1024 5] by simp

lemma rnd_7: "rnd 7 = Fin 7"
  using rnd_eval [of "7 * 2 ^ 50" 1024 7] by simp

lemma rnd_9: "rnd 9 = Fin 9"
  using rnd_eval [of "9 * 2 ^ 49" 1025 9] by simp

lemma rnd_half: "rnd (1 / 2) = Fin (1 / 2)"
  using rnd_eval [of "2 ^ 52" 1021 "1 / 2"] by simp

lemma rnd_next_1:
  "rnd (4503599627370497 / 4503599627370496) = Fin (4503599627370497 / 4503599627370496)"
  using rnd_eval [of "2 ^ 52 + 1" 1022 "4503599627370497 / 4503599627370496"] by simp

lemma rnd_small: "rnd (3 / 18014398509481984) = Fin (3 / 18014398509481984)"
  using rnd_eval [of "3 * 2 ^ 51" 969 "3 / 18014398509481984"] by simp

lemma rnd_2_60: "rnd 1152921504606846976 = Fin 1152921504606846976"
  using rnd_eval [of "2 ^ 52" 1082 1152921504606846976] by simp

lemma rnd_2_1023: "rnd (2 ^ 1023) = Fin (2 ^ 1023)"
  using rnd_eval [of "2 ^ 52" 2045 "2 ^ 1023"] by simp

text \<open>\<open>1 + 3 * 2 ^ -54\<close> is rounded up to \<open>1 + 2 ^ -52\<close>.\<close>

lemma rnd_round_up:
  "rnd (18014398509481987 / 18014398509481984) = Fin (4503599627370497 / 4503599627370496)"
  using rnd_eval [of "2 ^ 52" 1022 "18014398509481987 / 18014398509481984"] by simp

text \<open>\<open>2 ^ 60 + 1 / 2\<close> and \<open>2 ^ 60 + 1\<close> are rounded down to \<open>2 ^ 60\<close>.\<close>

lemma rnd_absorb_half: "rnd (2305843009213693953 / 2) = Fin 1152921504606846976"
  using rnd_eval [of "2 ^ 52" 1082 "2305843009213693953 / 2"] by simp

lemma rnd_absorb_1: "rnd 1152921504606846977 = Fin 1152921504606846976"
  using rnd_eval [of "2 ^ 52" 1082 1152921504606846977] by simp

text \<open>\<open>2 ^ 1023 + 2 ^ 1023\<close> overflows.\<close>

lemma rnd_overflow: "rnd (2 ^ 1023 + 2 ^ 1023) = PInf"
  using rnd_eval [of "2 ^ 52" 2046 "2 ^ 1023 + 2 ^ 1023"] by simp

section \<open>Walks\<close>

lemma walk_end_Nil [simp]: "walk_end u [] = u"
  by (simp add: walk_end_def)

lemma walk_end_Cons [simp]: "walk_end u (e # rest) = walk_end (fst e) rest"
  by (simp add: walk_end_def)

lemma walk_end_append: "walk_end u (a @ b) = walk_end (walk_end u a) b"
  by (induction a arbitrary: u) simp_all

lemma is_walk_append: "is_walk g u (a @ b) = (is_walk g u a \<and> is_walk g (walk_end u a) b)"
proof (induction a arbitrary: u)
  case Nil
  then show ?case by simp
next
  case (Cons e a)
  obtain v w where e: "e = (v, w)" by (cases e)
  show ?case unfolding e using Cons.IH [of v] by simp
qed

lemma walk_weight_Nil [simp]: "walk_weight [] = 0"
  by (simp add: walk_weight_def)

lemma walk_weight_Cons [simp]: "walk_weight (e # rest) = weight (snd e) + walk_weight rest"
  by (simp add: walk_weight_def)

lemma walk_sum_append: "walk_sum x (a @ b) = walk_sum (walk_sum x a) b"
  by (induction a arbitrary: x) simp_all

lemma walk_sum_PInf: "walk_sum PInf steps = PInf"
  by (induction steps) simp_all

lemma walk_sum_mono:
  "(\<And>e. e \<in> set steps \<Longrightarrow> 0 \<le> weight (snd e)) \<Longrightarrow> Fin 0 \<le> x \<Longrightarrow> x \<le> x' \<Longrightarrow>
   walk_sum x steps \<le> walk_sum x' steps"
proof (induction steps arbitrary: x x')
  case Nil
  then show ?case by simp
next
  case (Cons e rest)
  have w: "0 \<le> weight (snd e)" by (rule Cons.prems(1)) simp
  have r: "0 \<le> weight (snd e')" if "e' \<in> set rest" for e'
    by (rule Cons.prems(1)) (use that in simp)
  have a: "Fin 0 \<le> dadd x (weight (snd e))" using Cons.prems(2) w by (rule dadd_lower)
  have b: "dadd x (weight (snd e)) \<le> dadd x' (weight (snd e))"
    using Cons.prems(2,3) w by (rule dadd_mono1)
  from Cons.IH [OF r a b] show ?case by simp
qed

lemma is_walk_nonneg:
  "nonneg_weights g \<Longrightarrow> is_walk g u steps \<Longrightarrow> e \<in> set steps \<Longrightarrow> 0 \<le> weight (snd e)"
proof (induction steps arbitrary: u)
  case Nil
  then show ?case by simp
next
  case (Cons e' rest)
  obtain v w where e': "e' = (v, w)" by (cases e')
  from Cons.prems(2) have mem: "(v, w) \<in> set (entries g u)" and wk: "is_walk g v rest"
    by (simp_all add: e')
  from Cons.prems(1) mem have w: "0 \<le> weight w" unfolding nonneg_weights_def by blast
  show ?case
  proof (cases "e = e'")
    case True
    with w show ?thesis by (simp add: e')
  next
    case False
    with Cons.prems(3) have "e \<in> set rest" by simp
    from Cons.IH [OF Cons.prems(1) wk this] show ?thesis .
  qed
qed

lemma back_sum_rev: "back_sum rs = walk_sum (Fin 0) (rev rs)"
  by (induction rs) (simp_all add: walk_sum_append)

lemma entries_hasNode: "e \<in> set (entries g u) \<Longrightarrow> hasNode g u"
  by (cases "adjacency g u") (simp_all add: entries_def hasNode_def)

section \<open>The tree of parents\<close>

lemma back_walk_mono:
  assumes st: "\<And>x. settled g d pq x \<Longrightarrow> settled g d' pq' x \<and> d' x = d x \<and> p' x = p x"
  shows "back_walk g d p pq s v rs \<Longrightarrow> d' v = d v \<Longrightarrow> p' v = p v \<Longrightarrow>
         back_walk g d' p' pq' s v rs"
proof (induction rs arbitrary: v)
  case Nil
  then show ?case by simp
next
  case (Cons e rs)
  obtain v' w where e: "e = (v', w)" by (cases e)
  from Cons.prems(1) obtain u where u: "v' = v" "v \<noteq> s" "hasNode g v" "p v = Some u"
      "settled g d pq u" "(v, w) \<in> set (entries g u)" "d u = Some (back_sum rs)"
      "d v = Some (dadd (back_sum rs) (weight w))" "back_walk g d p pq s u rs"
    by (auto simp: e split: option.splits)
  from st [OF u(5)] have su: "settled g d' pq' u" "d' u = d u" "p' u = p u" by simp_all
  from Cons.IH [OF u(9) su(2,3)] have "back_walk g d' p' pq' s u rs" .
  with u su Cons.prems(2,3) show ?case by (simp add: e)
qed

lemma back_walk_dist:
  "d s = Some (Fin 0) \<Longrightarrow> back_walk g d p pq s v rs \<Longrightarrow> d v = Some (back_sum rs)"
  by (cases rs) (auto split: option.splits)

lemma back_walk_is_walk:
  "back_walk g d p pq s v rs \<Longrightarrow> is_walk g s (rev rs) \<and> walk_end s (rev rs) = v"
proof (induction rs arbitrary: v)
  case Nil
  then show ?case by simp
next
  case (Cons e rs)
  obtain v' w where e: "e = (v', w)" by (cases e)
  from Cons.prems obtain u where u: "v' = v" "(v, w) \<in> set (entries g u)" "back_walk g d p pq s u rs"
    by (auto simp: e split: option.splits)
  from Cons.IH [OF u(3)] have "is_walk g s (rev rs)" "walk_end s (rev rs) = u" by simp_all
  with u show ?case by (simp add: e is_walk_append walk_end_append)
qed

lemma back_walk_pathLoop:
  "back_walk g d p pq s v rs \<Longrightarrow>
   pathLoop p s v acc = Some (s # map fst (rev rs) @ rev acc)"
proof (induction rs arbitrary: v acc)
  case Nil
  then show ?case by (subst pathLoop.simps) simp
next
  case (Cons e rs)
  obtain v' w where e: "e = (v', w)" by (cases e)
  from Cons.prems obtain u where u: "v' = v" "v \<noteq> s" "p v = Some u" "back_walk g d p pq s u rs"
    by (auto simp: e split: option.splits)
  have "pathLoop p s v acc = pathLoop p s u (acc @ [v])"
    using u(2,3) by (subst pathLoop.simps) simp
  also have "\<dots> = Some (s # map fst (rev rs) @ rev (acc @ [v]))"
    by (rule Cons.IH [OF u(4)])
  finally show ?case by (simp add: e u(1))
qed

text \<open>Along the parents the recorded distances do not decrease.\<close>

lemma sorted_le_last: "sorted xs \<Longrightarrow> x \<in> set xs \<Longrightarrow> x \<le> last xs"
  by (induction xs) auto

lemma back_walk_sorted:
  assumes dist: "\<And>t y. d t = Some y \<Longrightarrow> is_dist y" and nn: "nonneg_weights g"
  shows "back_walk g d p pq s v rs \<Longrightarrow>
         sorted (map (\<lambda>n. case d n of None \<Rightarrow> PInf | Some y \<Rightarrow> y) (s # map fst (rev rs))) \<and>
         last (s # map fst (rev rs)) = v"
proof (induction rs arbitrary: v)
  case Nil
  then show ?case by simp
next
  case (Cons e rs)
  let ?f = "\<lambda>n. case d n of None \<Rightarrow> PInf | Some y \<Rightarrow> y"
  let ?xs = "s # map fst (rev rs)"
  obtain v' w where e: "e = (v', w)" by (cases e)
  from Cons.prems obtain u where u: "v' = v" "(v, w) \<in> set (entries g u)"
      "d u = Some (back_sum rs)" "d v = Some (dadd (back_sum rs) (weight w))"
      "back_walk g d p pq s u rs"
    by (auto simp: e split: option.splits)
  from Cons.IH [OF u(5)] have so: "sorted (map ?f ?xs)" and la: "last ?xs = u" by simp_all
  from nn u(2) have w: "0 \<le> weight w" unfolding nonneg_weights_def by blast
  from dist [OF u(3)] w have "back_sum rs \<le> dadd (back_sum rs) (weight w)" by (rule dadd_ge)
  then have uv: "?f u \<le> ?f v" using u(3,4) by simp
  have "x \<le> ?f v" if "x \<in> set (map ?f ?xs)" for x
  proof -
    have "x \<le> last (map ?f ?xs)" using so that by (rule sorted_le_last)
    also have "last (map ?f ?xs) = ?f (last ?xs)" by (rule last_map) simp
    also have "\<dots> = ?f u" unfolding la ..
    finally show ?thesis using uv by simp
  qed
  then have "sorted (map ?f ?xs @ [?f v])" using so by (simp add: sorted_append)
  moreover have "s # map fst (rev (e # rs)) = ?xs @ [v]" by (simp add: e u(1))
  ultimately show ?case by simp
qed

section \<open>One relaxation step\<close>

lemma relax_Cons: "relax u du (e # rest) st = relax u du rest (relax1 u du e st)"
proof -
  obtain v w where e: "e = (v, w)" by (cases e)
  obtain d p pq where st: "st = (d, p, pq)" by (cases st)
  obtain d1 dv where da: "dist_at d v = (d1, dv)" by (cases "dist_at d v")
  show ?thesis unfolding e st by (simp add: relax1_def Let_def da)
qed

lemma relax_Nil: "relax u du [] st = st"
  by (cases st) simp

lemma settled_other:
  "x \<noteq> v \<Longrightarrow> settled g (d(v \<mapsto> y)) ((z, v) # pq) x = settled g d pq x"
  by (simp add: settled_def)

lemma settled_same_queue:
  "d' x = d x \<Longrightarrow> settled g d' pq x = settled g d pq x"
  by (simp add: settled_def)

lemma relaxed_append: "relaxed d u (a @ b) = (relaxed d u a \<and> relaxed d u b)"
  by (auto simp: relaxed_def)

lemma relaxed_lower:
  assumes "relaxed d x es" and "d' x = d x"
    and "\<And>t y. d t = Some y \<Longrightarrow> \<exists>y'. d' t = Some y' \<and> y' \<le> y"
  shows "relaxed d' x es"
  unfolding relaxed_def
proof (intro allI impI)
  fix v w
  assume "(v, w) \<in> set es"
  with assms(1) obtain r y where
    a: "d x = Some (Fin r)" "d v = Some y" "y \<le> dadd (Fin r) (weight w)"
    unfolding relaxed_def by blast
  from assms(3) [OF a(2)] obtain y' where y': "d' v = Some y'" "y' \<le> y" by blast
  from y'(2) a(3) have "y' \<le> dadd (Fin r) (weight w)" by (rule order_trans)
  with a(1) assms(2) y'(1)
  show "\<exists>r y. d' x = Some (Fin r) \<and> d' v = Some y \<and> y \<le> dadd (Fin r) (weight w)"
    by (intro exI [of _ r] exI [of _ y']) simp
qed

text \<open>The step when the target has no recorded distance: it is not a node of the graph.\<close>

lemma relax1_absent:
  assumes inv: "rinv g s u r done (d, p, pq)" and w: "0 \<le> weight w" and dv: "d v = None"
  shows "relax1 u (Fin r) (v, w) (d, p, pq) = (d(v \<mapsto> Fin 0), p, pq)"
    and "rinv g s u r (done @ [(v, w)]) (d(v \<mapsto> Fin 0), p, pq)"
    and "settled g d pq x \<Longrightarrow> settled g (d(v \<mapsto> Fin 0)) pq x"
proof -
  let ?d = "d(v \<mapsto> Fin 0)"
  from inv have b: "base_inv g s d p pq" and su: "settled g d pq u" and du: "d u = Some (Fin r)"
    and r0: "0 \<le> r"
    and le: "\<And>x y. settled g d pq x \<Longrightarrow> d x = Some (Fin y) \<Longrightarrow> y \<le> r"
    and rel: "\<And>x. settled g d pq x \<Longrightarrow> x \<noteq> u \<Longrightarrow> relaxed d x (entries g x)"
    and relu: "relaxed d u done"
    by (auto simp: rinv_def)
  from b have A: "\<And>x. hasNode g x \<Longrightarrow> d x \<noteq> None"
    and A2: "\<And>x. \<not> hasNode g x \<Longrightarrow> d x = None \<or> d x = Some (Fin 0)"
    and B: "hasNode g s" "d s = Some (Fin 0)"
    and C: "\<And>x t. (x, t) \<in> set pq \<Longrightarrow>
         hasNode g t \<and> (\<exists>r y. x = Fin r \<and> 0 \<le> r \<and> d t = Some (Fin y) \<and> y \<le> r)"
    and D: "distinct pq"
    and E: "\<And>x y z t. settled g d pq x \<Longrightarrow> d x = Some (Fin y) \<Longrightarrow> (z, t) \<in> set pq \<Longrightarrow> Fin y \<le> z"
    and G: "\<And>t y. hasNode g t \<Longrightarrow> d t = Some (Fin y) \<Longrightarrow> \<exists>rs. back_walk g d p pq s t rs"
    and P1: "p s = None"
    and P2: "\<And>t. p t \<noteq> None \<Longrightarrow> hasNode g t \<and> (\<exists>r. d t = Some (Fin r))"
    and I: "\<And>t y. d t = Some y \<Longrightarrow> is_dist y"
    unfolding base_inv_def by blast+
  have nd0: "Fin 0 \<le> dadd (Fin r) (weight w)" using r0 w by (intro dadd_lower) simp_all
  then have nlt: "\<not> dadd (Fin r) (weight w) < Fin 0" by (simp only: not_less)
  from A dv have nv: "\<not> hasNode g v" by blast
  have same: "?d x = d x" if "hasNode g x" for x using that nv by auto
  have set_eq: "settled g ?d pq x = settled g d pq x" for x
  proof (cases "x = v")
    case True
    then show ?thesis using nv by (simp add: settled_def)
  next
    case False
    then show ?thesis by (simp add: settled_def)
  qed
  show "relax1 u (Fin r) (v, w) (d, p, pq) = (?d, p, pq)"
    using nlt dv by (simp add: relax1_def dist_at_def Let_def)
  show "settled g d pq x \<Longrightarrow> settled g ?d pq x" using set_eq by simp
  have lower: "\<exists>y'. ?d t = Some y' \<and> y' \<le> y" if "d t = Some y" for t y
    using that dv by (cases "t = v") auto
  have b': "base_inv g s ?d p pq"
    unfolding base_inv_def
  proof (intro conjI allI impI)
    fix x assume "hasNode g x" then show "?d x \<noteq> None" using A [of x] by simp
  next
    fix x assume "\<not> hasNode g x" then show "?d x = None \<or> ?d x = Some (Fin 0)"
      using A2 [of x] by auto
  next
    show "hasNode g s" by (rule B)
  next
    show "?d s = Some (Fin 0)" using B same [of s] by simp
  next
    fix x t assume "(x, t) \<in> set pq"
    from C [OF this] show "hasNode g t" by simp
  next
    fix x t assume "(x, t) \<in> set pq"
    from C [OF this] same [of t]
    show "\<exists>r y. x = Fin r \<and> 0 \<le> r \<and> ?d t = Some (Fin y) \<and> y \<le> r" by auto
  next
    show "distinct pq" by (rule D)
  next
    fix x y z t
    assume "settled g ?d pq x" "?d x = Some (Fin y)" "(z, t) \<in> set pq"
    then have "settled g d pq x" "d x = Some (Fin y)"
      using set_eq same [of x] by (auto simp: settled_def)
    from E [OF this \<open>(z, t) \<in> set pq\<close>] show "Fin y \<le> z" .
  next
    fix t y assume h: "hasNode g t" and "?d t = Some (Fin y)"
    then have "d t = Some (Fin y)" using same by simp
    from G [OF h this] obtain rs where rs: "back_walk g d p pq s t rs" by blast
    have "back_walk g ?d p pq s t rs"
    proof (rule back_walk_mono [OF _ rs])
      fix x assume "settled g d pq x"
      then show "settled g ?d pq x \<and> ?d x = d x \<and> p x = p x"
        using set_eq same [of x] by (auto simp: settled_def)
    next
      show "?d t = d t" using same h by simp
    qed simp
    then show "\<exists>rs. back_walk g ?d p pq s t rs" by blast
  next
    show "p s = None" by (rule P1)
  next
    fix t assume "p t \<noteq> None"
    from P2 [OF this] same [of t]
    show "hasNode g t" and "\<exists>r. ?d t = Some (Fin r)" by auto
  next
    fix t y assume "?d t = Some y"
    then show "is_dist y" using I [of t y] is_dist_zero by (cases "t = v") simp_all
  qed
  have "?d u = Some (Fin r)" using du su same [of u] by (simp add: settled_def)
  moreover have "?d v = Some (Fin 0)" by simp
  ultimately have relnew: "relaxed ?d u [(v, w)]"
    using nd0 unfolding relaxed_def by (intro allI impI exI [of _ r] exI [of _ "Fin 0"]) simp
  show "rinv g s u r (done @ [(v, w)]) (?d, p, pq)"
    unfolding rinv_def
  proof (simp only: prod.case, intro conjI allI impI)
    show "base_inv g s ?d p pq" by (rule b')
    show "settled g ?d pq u" using su set_eq by simp
    show "?d u = Some (Fin r)" using du su same [of u] by (simp add: settled_def)
    show "0 \<le> r" by (rule r0)
  next
    fix x y assume "settled g ?d pq x" "?d x = Some (Fin y)"
    then have "settled g d pq x" "d x = Some (Fin y)"
      using set_eq same [of x] by (auto simp: settled_def)
    then show "y \<le> r" by (rule le)
  next
    fix x assume "settled g ?d pq x" "x \<noteq> u"
    then have sx: "settled g d pq x" using set_eq by simp
    from rel [OF this \<open>x \<noteq> u\<close>] show "relaxed ?d x (entries g x)"
    proof (rule relaxed_lower)
      show "?d x = d x" using sx same [of x] by (simp add: settled_def)
    qed (rule lower)
  next
    have "relaxed ?d u done"
      using relu
    proof (rule relaxed_lower)
      show "?d u = d u" using su same [of u] by (simp add: settled_def)
    qed (rule lower)
    with relnew show "relaxed ?d u (done @ [(v, w)])" by (simp add: relaxed_append)
  qed
qed


lemma base_invD:
  assumes "base_inv g s d p pq"
  shows "\<And>x. hasNode g x \<Longrightarrow> d x \<noteq> None"
    and "\<And>x. \<not> hasNode g x \<Longrightarrow> d x = None \<or> d x = Some (Fin 0)"
    and "hasNode g s" and "d s = Some (Fin 0)"
    and "\<And>x t. (x, t) \<in> set pq \<Longrightarrow>
         hasNode g t \<and> (\<exists>r y. x = Fin r \<and> 0 \<le> r \<and> d t = Some (Fin y) \<and> y \<le> r)"
    and "distinct pq"
    and "\<And>x y z t. settled g d pq x \<Longrightarrow> d x = Some (Fin y) \<Longrightarrow> (z, t) \<in> set pq \<Longrightarrow> Fin y \<le> z"
    and "\<And>t y. hasNode g t \<Longrightarrow> d t = Some (Fin y) \<Longrightarrow> \<exists>rs. back_walk g d p pq s t rs"
    and "p s = None"
    and "\<And>t. p t \<noteq> None \<Longrightarrow> hasNode g t \<and> (\<exists>r. d t = Some (Fin r))"
    and "\<And>t y. d t = Some y \<Longrightarrow> is_dist y"
  using assms unfolding base_inv_def by blast+

lemma rinvD:
  assumes "rinv g s u r done (d, p, pq)"
  shows "base_inv g s d p pq" and "settled g d pq u" and "d u = Some (Fin r)" and "0 \<le> r"
    and "\<And>x y. settled g d pq x \<Longrightarrow> d x = Some (Fin y) \<Longrightarrow> y \<le> r"
    and "\<And>x. settled g d pq x \<Longrightarrow> x \<noteq> u \<Longrightarrow> relaxed d x (entries g x)"
    and "relaxed d u done"
  using assms by (auto simp: rinv_def)

text \<open>The step when the recorded distance of the target is not improved.\<close>

lemma relax1_keep:
  assumes inv: "rinv g s u r done (d, p, pq)" and dv: "d v = Some dv"
    and no: "\<not> dadd (Fin r) (weight w) < dv"
  shows "relax1 u (Fin r) (v, w) (d, p, pq) = (d, p, pq)"
    and "rinv g s u r (done @ [(v, w)]) (d, p, pq)"
proof -
  note f = rinvD [OF inv]
  show "relax1 u (Fin r) (v, w) (d, p, pq) = (d, p, pq)"
    using dv no by (simp add: relax1_def dist_at_def Let_def)
  from no have "dv \<le> dadd (Fin r) (weight w)" by (simp add: not_less)
  with f(3) dv have "relaxed d u [(v, w)]"
    unfolding relaxed_def by (intro allI impI exI [of _ r] exI [of _ dv]) simp
  with f(7) have "relaxed d u (done @ [(v, w)])" by (simp add: relaxed_append)
  with inv show "rinv g s u r (done @ [(v, w)]) (d, p, pq)"
    by (simp add: rinv_def)
qed

text \<open>The step that improves the distance of the target.\<close>

lemma relax1_improve:
  assumes inv: "rinv g s u r done (d, p, pq)" and w: "0 \<le> weight w"
    and e: "(v, w) \<in> set (entries g u)"
    and dv: "d v = Some dv" and nd: "dadd (Fin r) (weight w) = Fin n" and lessn: "Fin n < dv"
  shows "relax1 u (Fin r) (v, w) (d, p, pq)
           = (d(v \<mapsto> Fin n), p(v \<mapsto> u), (Fin n, v) # pq)"
    and "rinv g s u r (done @ [(v, w)])
           (d(v \<mapsto> Fin n), p(v \<mapsto> u), (Fin n, v) # pq)"
    and "settled g d pq x \<Longrightarrow>
           settled g (d(v \<mapsto> Fin n)) ((Fin n, v) # pq) x"
proof -
  let ?d = "d(v \<mapsto> Fin n)" and ?p = "p(v \<mapsto> u)" and ?q = "(Fin n, v) # pq"
  note f = rinvD [OF inv]
  note b = base_invD [OF f(1)]
  have ir: "is_dist (Fin r)" using b(11) [OF f(3)] .
  have "Fin r \<le> dadd (Fin r) (weight w)" using ir w by (rule dadd_ge)
  then have rn: "r \<le> n" unfolding nd by simp
  have n0: "0 \<le> n" "r \<le> n" using rn f(4) by simp_all
  have "is_dist (dadd (Fin r) (weight w))" using ir w by (rule dadd_is_dist)
  then have idn: "is_dist (Fin n)" unfolding nd .
  have hv: "hasNode g v"
  proof (rule ccontr)
    assume "\<not> hasNode g v"
    from b(2) [OF this] dv have "dv = Fin 0" by simp
    with lessn n0 show False by simp
  qed
  have nsv: "\<not> settled g d pq v"
  proof
    assume sv: "settled g d pq v"
    then obtain y where y: "d v = Some (Fin y)" by (auto simp: settled_def)
    from f(5) [OF sv y] have "y \<le> r" .
    with y dv lessn n0 show False by simp
  qed
  have vu: "v \<noteq> u" using nsv f(2) by auto
  have vs: "v \<noteq> s" using b(4) dv lessn n0 by auto
  have other: "settled g ?d ?q x = settled g d pq x" if "x \<noteq> v" for x
    using that by (rule settled_other)
  have nsv': "\<not> settled g ?d ?q v" by (simp add: settled_def)
  have keep: "settled g ?d ?q x \<and> ?d x = d x \<and> ?p x = p x" if "settled g d pq x" for x
  proof -
    from that nsv have "x \<noteq> v" by auto
    with that other show ?thesis by simp
  qed
  have bk: "settled g d pq x \<and> d x = ?d x" if "settled g ?d ?q x" for x
  proof -
    from that nsv' have "x \<noteq> v" by auto
    with that other show ?thesis by simp
  qed
  have lower: "\<exists>y'. ?d t = Some y' \<and> y' \<le> y" if "d t = Some y" for t y
  proof (cases "t = v")
    case True
    with that dv lessn show ?thesis by (simp add: less_le)
  next
    case False
    with that show ?thesis by simp
  qed
  show "relax1 u (Fin r) (v, w) (d, p, pq) = (?d, ?p, ?q)"
    using dv lessn nd by (simp add: relax1_def dist_at_def Let_def)
  show "settled g d pq x \<Longrightarrow> settled g ?d ?q x" using keep by simp
  have b': "base_inv g s ?d ?p ?q"
    unfolding base_inv_def
  proof (intro conjI allI impI)
    fix x assume "hasNode g x" then show "?d x \<noteq> None" using b(1) [of x] by simp
  next
    fix x assume "\<not> hasNode g x" then show "?d x = None \<or> ?d x = Some (Fin 0)"
      using b(2) [of x] hv by auto
  next
    show "hasNode g s" by (rule b(3))
  next
    show "?d s = Some (Fin 0)" using b(4) vs by simp
  next
    fix x t assume "(x, t) \<in> set ?q"
    then show "hasNode g t" using b(5) [of x t] hv by auto
  next
    fix x t assume m: "(x, t) \<in> set ?q"
    show "\<exists>r y. x = Fin r \<and> 0 \<le> r \<and> ?d t = Some (Fin y) \<and> y \<le> r"
    proof (cases "(x, t) = (Fin n, v)")
      case True
      then show ?thesis using n0 by simp
    next
      case False
      with m have m': "(x, t) \<in> set pq" by auto
      from b(5) [OF m'] obtain r' y where
        ry: "x = Fin r'" "0 \<le> r'" "d t = Some (Fin y)" "y \<le> r'" by blast
      show ?thesis
      proof (cases "t = v")
        case True
        with ry(3) dv lessn have "n \<le> y" by simp
        with ry(4) have "n \<le> r'" by simp
        with ry True show ?thesis by simp
      next
        case False
        with ry show ?thesis by simp
      qed
    qed
  next
    have "(Fin n, v) \<notin> set pq"
    proof
      assume "(Fin n, v) \<in> set pq"
      from b(5) [OF this] dv lessn show False by auto
    qed
    with b(6) show "distinct ?q" by simp
  next
    fix x y z t
    assume sx: "settled g ?d ?q x" and dx: "?d x = Some (Fin y)" and m: "(z, t) \<in> set ?q"
    from bk [OF sx] dx have sx': "settled g d pq x" and dx': "d x = Some (Fin y)" by simp_all
    show "Fin y \<le> z"
    proof (cases "(z, t) = (Fin n, v)")
      case True
      from f(5) [OF sx' dx'] n0 True show ?thesis by simp
    next
      case False
      with m have "(z, t) \<in> set pq" by auto
      from b(7) [OF sx' dx' this] show ?thesis .
    qed
  next
    fix t y assume h: "hasNode g t" and dt: "?d t = Some (Fin y)"
    show "\<exists>rs. back_walk g ?d ?p ?q s t rs"
    proof (cases "t = v")
      case False
      with dt have "d t = Some (Fin y)" by simp
      from b(8) [OF h this] obtain rs where rs: "back_walk g d p pq s t rs" by blast
      have "back_walk g ?d ?p ?q s t rs"
        by (rule back_walk_mono [OF keep rs]) (use False in simp_all)
      then show ?thesis by blast
    next
      case True
      have hu: "hasNode g u" using f(2) by (simp add: settled_def)
      from b(8) [OF hu f(3)] obtain rs where rs: "back_walk g d p pq s u rs" by blast
      from back_walk_dist [OF b(4) rs] f(3) have wr: "back_sum rs = Fin r" by simp
      have "back_walk g ?d ?p ?q s u rs"
        by (rule back_walk_mono [OF keep rs]) (use vu in simp_all)
      moreover have "settled g ?d ?q u" using keep [OF f(2)] by simp
      ultimately have "back_walk g ?d ?p ?q s v ((v, w) # rs)"
        using vs hv e f(3) vu nd by (simp add: wr)
      with True show ?thesis by blast
    qed
  next
    show "?p s = None" using b(9) vs by simp
  next
    fix t assume pt: "?p t \<noteq> None"
    show "hasNode g t" and "\<exists>r. ?d t = Some (Fin r)"
    proof -
      have "hasNode g t \<and> (\<exists>r. ?d t = Some (Fin r))"
      proof (cases "t = v")
        case True
        with hv show ?thesis by simp
      next
        case False
        with pt have "p t \<noteq> None" by simp
        from b(10) [OF this] False show ?thesis by simp
      qed
      then show "hasNode g t" and "\<exists>r. ?d t = Some (Fin r)" by simp_all
    qed
  next
    fix t y assume "?d t = Some y"
    then show "is_dist y" using b(11) [of t y] idn by (cases "t = v") simp_all
  qed
  have "?d u = Some (Fin r)" using f(3) vu by simp
  moreover have "?d v = Some (Fin n)" by simp
  ultimately have relnew: "relaxed ?d u [(v, w)]"
    using nd unfolding relaxed_def by (intro allI impI exI [of _ r] exI [of _ "Fin n"]) simp
  show "rinv g s u r (done @ [(v, w)]) (?d, ?p, ?q)"
    unfolding rinv_def
  proof (simp only: prod.case, intro conjI allI impI)
    show "base_inv g s ?d ?p ?q" by (rule b')
    show "settled g ?d ?q u" using keep [OF f(2)] by simp
    show "?d u = Some (Fin r)" using f(3) vu by simp
    show "0 \<le> r" by (rule f(4))
  next
    fix x y assume "settled g ?d ?q x" "?d x = Some (Fin y)"
    with bk [of x] have "settled g d pq x" "d x = Some (Fin y)" by simp_all
    then show "y \<le> r" by (rule f(5))
  next
    fix x assume sx: "settled g ?d ?q x" and "x \<noteq> u"
    from bk [OF sx] have sx': "settled g d pq x" and dx: "d x = ?d x" by simp_all
    from f(6) [OF sx' \<open>x \<noteq> u\<close>] show "relaxed ?d x (entries g x)"
      by (rule relaxed_lower) (use dx lower in simp_all)
  next
    have "relaxed ?d u done"
      using f(7) by (rule relaxed_lower) (use vu lower in simp_all)
    with relnew show "relaxed ?d u (done @ [(v, w)])" by (simp add: relaxed_append)
  qed
qed

section \<open>The relaxation loop\<close>

lemma relax1_rinv:
  assumes inv: "rinv g s u r done (d, p, pq)" and w: "0 \<le> weight w"
    and e: "(v, w) \<in> set (entries g u)"
  shows "\<exists>d' p' pq'. relax1 u (Fin r) (v, w) (d, p, pq) = (d', p', pq') \<and>
           rinv g s u r (done @ [(v, w)]) (d', p', pq') \<and>
           (\<forall>x. settled g d pq x \<longrightarrow> settled g d' pq' x)"
proof (cases "d v")
  case None
  from relax1_absent [OF inv w None] show ?thesis by blast
next
  case (Some dv)
  show ?thesis
  proof (cases "dadd (Fin r) (weight w) < dv")
    case True
    have "Fin 0 \<le> dadd (Fin r) (weight w)"
      using rinvD(4) [OF inv] w by (intro dadd_lower) simp_all
    with True obtain n where nd: "dadd (Fin r) (weight w) = Fin n"
      by (cases "dadd (Fin r) (weight w)") simp_all
    from True have "Fin n < dv" unfolding nd .
    from relax1_improve [OF inv w e Some nd this] show ?thesis by blast
  next
    case False
    from relax1_keep [OF inv Some False] show ?thesis by blast
  qed
qed

lemma relax_rinv:
  assumes nn: "nonneg_weights g"
  shows "rinv g s u r done (d, p, pq) \<Longrightarrow> set es \<subseteq> set (entries g u) \<Longrightarrow>
         \<exists>d' p' pq'. relax u (Fin r) es (d, p, pq) = (d', p', pq') \<and>
           rinv g s u r (done @ es) (d', p', pq') \<and>
           (\<forall>x. settled g d pq x \<longrightarrow> settled g d' pq' x)"
proof (induction es arbitrary: "done" d p pq)
  case Nil
  then show ?case by simp
next
  case (Cons e es)
  obtain v w where e: "e = (v, w)" by (cases e)
  from Cons.prems(2) have mem: "(v, w) \<in> set (entries g u)" and sub: "set es \<subseteq> set (entries g u)"
    by (simp_all add: e)
  from nn mem have w: "0 \<le> weight w" unfolding nonneg_weights_def by blast
  from relax1_rinv [OF Cons.prems(1) w mem] obtain d1 p1 pq1 where
    s1: "relax1 u (Fin r) (v, w) (d, p, pq) = (d1, p1, pq1)"
      "rinv g s u r (done @ [(v, w)]) (d1, p1, pq1)"
      "\<And>x. settled g d pq x \<Longrightarrow> settled g d1 pq1 x"
    by blast
  from Cons.IH [OF s1(2) sub] obtain d' p' pq' where
    s2: "relax u (Fin r) es (d1, p1, pq1) = (d', p', pq')"
      "rinv g s u r ((done @ [(v, w)]) @ es) (d', p', pq')"
      "\<And>x. settled g d1 pq1 x \<Longrightarrow> settled g d' pq' x"
    by blast
  have "relax u (Fin r) (e # es) (d, p, pq) = (d', p', pq')"
    unfolding relax_Cons e s1(1) s2(1) ..
  moreover have "rinv g s u r (done @ e # es) (d', p', pq')"
    using s2(2) by (simp add: e)
  moreover have "\<forall>x. settled g d pq x \<longrightarrow> settled g d' pq' x"
    using s1(3) s2(3) by blast
  ultimately show ?case by (intro exI conjI)
qed

section \<open>Taking the least item off the queue\<close>

lemma dinvD:
  assumes "dinv g s (d, p, pq)"
  shows "base_inv g s d p pq" and "\<And>x. settled g d pq x \<Longrightarrow> relaxed d x (entries g x)"
  using assms by (auto simp: dinv_def)

lemma pop_stale:
  assumes inv: "dinv g s (d, p, pq)" and m: "(z, u) \<in> set pq" and ne: "d u \<noteq> Some z"
  shows "dinv g s (d, p, remove1 (z, u) pq)"
    and "settled g d (remove1 (z, u) pq) x = settled g d pq x"
proof -
  let ?q = "remove1 (z, u) pq"
  note f = dinvD [OF inv]
  note b = base_invD [OF f(1)]
  have sq: "set ?q = set pq - {(z, u)}" using b(6) by simp
  show se: "settled g d ?q x = settled g d pq x" for x
    unfolding settled_def sq using ne by auto
  have b': "base_inv g s d p ?q"
    unfolding base_inv_def
  proof (intro conjI allI impI)
    fix x assume "hasNode g x" then show "d x \<noteq> None" by (rule b(1))
  next
    fix x assume "\<not> hasNode g x" then show "d x = None \<or> d x = Some (Fin 0)" by (rule b(2))
  next
    show "hasNode g s" by (rule b(3))
    show "d s = Some (Fin 0)" by (rule b(4))
  next
    fix x t assume "(x, t) \<in> set ?q"
    then have "(x, t) \<in> set pq" unfolding sq by simp
    from b(5) [OF this] show "hasNode g t"
      and "\<exists>r y. x = Fin r \<and> 0 \<le> r \<and> d t = Some (Fin y) \<and> y \<le> r" by simp_all
  next
    show "distinct ?q" using b(6) by simp
  next
    fix x y z' t assume "settled g d ?q x" "d x = Some (Fin y)" "(z', t) \<in> set ?q"
    then have "settled g d pq x" "d x = Some (Fin y)" "(z', t) \<in> set pq"
      unfolding se sq by simp_all
    then show "Fin y \<le> z'" by (rule b(7))
  next
    fix t y assume "hasNode g t" "d t = Some (Fin y)"
    from b(8) [OF this] obtain rs where rs: "back_walk g d p pq s t rs" by blast
    have "back_walk g d p ?q s t rs"
      by (rule back_walk_mono [OF _ rs]) (simp_all add: se)
    then show "\<exists>rs. back_walk g d p ?q s t rs" by blast
  next
    show "p s = None" by (rule b(9))
  next
    fix t assume "p t \<noteq> None"
    from b(10) [OF this] show "hasNode g t" and "\<exists>r. d t = Some (Fin r)" by simp_all
  next
    fix t y assume "d t = Some y"
    then show "is_dist y" by (rule b(11))
  qed
  show "dinv g s (d, p, ?q)"
    unfolding dinv_def using b' f(2) by (simp add: se)
qed

lemma pop_min:
  assumes inv: "dinv g s (d, p, pq)" and m: "(Fin r, u) \<in> set pq"
    and least: "\<And>e. e \<in> set pq \<Longrightarrow> (Fin r, u) \<le> e" and du: "d u = Some (Fin r)"
  shows "rinv g s u r [] (d, p, remove1 (Fin r, u) pq)"
    and "settled g d pq x \<Longrightarrow> settled g d (remove1 (Fin r, u) pq) x"
    and "\<not> settled g d pq u"
proof -
  let ?q = "remove1 (Fin r, u) pq"
  note f = dinvD [OF inv]
  note b = base_invD [OF f(1)]
  have sq: "set ?q = set pq - {(Fin r, u)}" using b(6) by simp
  from b(5) [OF m] have hu: "hasNode g u" and r0: "0 \<le> r" by auto
  have se: "settled g d ?q x = (settled g d pq x \<or> x = u)" for x
    unfolding settled_def sq using du hu by auto
  show "settled g d pq x \<Longrightarrow> settled g d ?q x" using se by simp
  show nsu: "\<not> settled g d pq u" using m du by (simp add: settled_def)
  have le_r: "y \<le> r" if "settled g d ?q x" "d x = Some (Fin y)" for x y
  proof (cases "x = u")
    case True
    with that du show ?thesis by simp
  next
    case False
    with that se have "settled g d pq x" by simp
    from b(7) [OF this that(2) m] show ?thesis by simp
  qed
  have b': "base_inv g s d p ?q"
    unfolding base_inv_def
  proof (intro conjI allI impI)
    fix x assume "hasNode g x" then show "d x \<noteq> None" by (rule b(1))
  next
    fix x assume "\<not> hasNode g x" then show "d x = None \<or> d x = Some (Fin 0)" by (rule b(2))
  next
    show "hasNode g s" by (rule b(3))
    show "d s = Some (Fin 0)" by (rule b(4))
  next
    fix x t assume "(x, t) \<in> set ?q"
    then have "(x, t) \<in> set pq" unfolding sq by simp
    from b(5) [OF this] show "hasNode g t"
      and "\<exists>r y. x = Fin r \<and> 0 \<le> r \<and> d t = Some (Fin y) \<and> y \<le> r" by simp_all
  next
    show "distinct ?q" using b(6) by simp
  next
    fix x y z t assume sx: "settled g d ?q x" and dx: "d x = Some (Fin y)" and "(z, t) \<in> set ?q"
    then have mz: "(z, t) \<in> set pq" unfolding sq by simp
    show "Fin y \<le> z"
    proof (cases "x = u")
      case True
      from least [OF mz] have "Fin r \<le> z" by (auto simp: less_le)
      with True dx du show ?thesis by simp
    next
      case False
      with sx se have "settled g d pq x" by simp
      from b(7) [OF this dx mz] show ?thesis .
    qed
  next
    fix t y assume "hasNode g t" "d t = Some (Fin y)"
    from b(8) [OF this] obtain rs where rs: "back_walk g d p pq s t rs" by blast
    have "back_walk g d p ?q s t rs"
      by (rule back_walk_mono [OF _ rs]) (simp_all add: se)
    then show "\<exists>rs. back_walk g d p ?q s t rs" by blast
  next
    show "p s = None" by (rule b(9))
  next
    fix t assume "p t \<noteq> None"
    from b(10) [OF this] show "hasNode g t" and "\<exists>r. d t = Some (Fin r)" by simp_all
  next
    fix t y assume "d t = Some y"
    then show "is_dist y" by (rule b(11))
  qed
  show "rinv g s u r [] (d, p, ?q)"
    unfolding rinv_def
  proof (simp only: prod.case, intro conjI allI impI)
    show "base_inv g s d p ?q" by (rule b')
    show "settled g d ?q u" using se by simp
    show "d u = Some (Fin r)" by (rule du)
    show "0 \<le> r" by (rule r0)
  next
    fix x y assume "settled g d ?q x" "d x = Some (Fin y)"
    then show "y \<le> r" by (rule le_r)
  next
    fix x assume "settled g d ?q x" "x \<noteq> u"
    with se have "settled g d pq x" by simp
    then show "relaxed d x (entries g x)" by (rule f(2))
  next
    show "relaxed d u []" by (simp add: relaxed_def)
  qed
qed

lemma rinv_dinv:
  assumes "rinv g s u r (entries g u) (d, p, pq)"
  shows "dinv g s (d, p, pq)"
proof -
  note f = rinvD [OF assms]
  have "relaxed d x (entries g x)" if "settled g d pq x" for x
    using f(6) [OF that] f(7) by (cases "x = u") simp_all
  with f(1) show ?thesis by (simp add: dinv_def)
qed

section \<open>The main loop\<close>

lemma hasNode_dom: "hasNode g x = (x \<in> dom (adjacency g))"
  by (auto simp: hasNode_def)

lemma dist_at_Some: "d u = Some x \<Longrightarrow> dist_at d u = (d, x)"
  by (simp add: dist_at_def)

lemma run_loop_terminates:
  assumes fin: "finite (dom (adjacency g))" and nn: "nonneg_weights g"
  shows "dinv g s (d, p, pq) \<Longrightarrow>
         \<exists>dj. run_loop g (d, p, pq) = Some dj \<and> dinv g s (dist dj, parent dj, [])"
proof (induction "(d, p, pq)" arbitrary: d p pq
    rule: wf_induct_rule [OF wf_measures
      [of "[\<lambda>(d, p, pq). card {x. hasNode g x \<and> \<not> settled g d pq x},
            \<lambda>(d, p, pq). length pq]"]])
  case 1
  note IH = 1(1) and inv = 1(2)
  note f = dinvD [OF inv]
  note b = base_invD [OF f(1)]
  have finU: "finite {x. hasNode g x \<and> \<not> settled g d' pq' x}" for d' pq'
    using fin by (simp add: hasNode_dom)
  show ?case
  proof (cases "pq = []")
    case True
    have "run_loop g (d, p, pq) = Some \<lparr>dist = d, parent = p\<rparr>"
      unfolding True by (subst run_loop.simps) simp
    with inv True show ?thesis by simp
  next
    case False
    obtain z u where zu: "Min (set pq) = (z, u)" by (cases "Min (set pq)")
    have m: "(z, u) \<in> set pq" using Min_in [of "set pq"] False zu by simp
    have least: "(z, u) \<le> e" if "e \<in> set pq" for e
      using Min_le [of "set pq" e] that zu by simp
    from b(5) [OF m] obtain r y where
      ry: "hasNode g u" "z = Fin r" "0 \<le> r" "d u = Some (Fin y)" "y \<le> r" by blast
    have da: "dist_at d u = (d, Fin y)" using ry(4) by (simp add: dist_at_def)
    let ?q = "remove1 (z, u) pq"
    have lenq: "length ?q < length pq" using m by (simp add: length_remove1) (cases pq, auto)
    show ?thesis
    proof (cases "z = Fin y")
      case stale: False
      have step: "run_loop g (d, p, pq) = run_loop g (d, p, ?q)"
        using False stale by (subst run_loop.simps) (simp add: zu da)
      have ne: "d u \<noteq> Some z" using stale ry(4) by simp
      note ps = pop_stale [OF inv m ne]
      have "{x. hasNode g x \<and> \<not> settled g d ?q x} = {x. hasNode g x \<and> \<not> settled g d pq x}"
        using ps(2) by simp
      with lenq have less: "((d, p, ?q), (d, p, pq))
          \<in> measures [\<lambda>(d, p, pq). card {x. hasNode g x \<and> \<not> settled g d pq x},
                      \<lambda>(d, p, pq). length pq]"
        by simp
      from IH [OF less ps(1)] step show ?thesis by simp
    next
      case True
      with ry have zr: "z = Fin r" and du: "d u = Some (Fin r)" by simp_all
      from ry(1) obtain es where es: "adjacency g u = Some es"
        by (auto simp: hasNode_def)
      then have ent: "entries g u = es" by (simp add: entries_def)
      have step: "run_loop g (d, p, pq) = run_loop g (relax u (Fin r) es (d, p, ?q))"
        using False True by (subst run_loop.simps) (simp add: zu da es zr)
      have m': "(Fin r, u) \<in> set pq" using m zr by simp
      have least': "(Fin r, u) \<le> e" if "e \<in> set pq" for e
        using least [OF that] zr by simp
      note pm = pop_min [OF inv m' least' du]
      from relax_rinv [OF nn pm(1), of es] ent obtain d' p' pq' where
        r: "relax u (Fin r) es (d, p, remove1 (Fin r, u) pq) = (d', p', pq')"
          "rinv g s u r es (d', p', pq')"
          "\<And>x. settled g d (remove1 (Fin r, u) pq) x \<Longrightarrow> settled g d' pq' x"
        by auto
      have inv': "dinv g s (d', p', pq')"
        by (rule rinv_dinv [of g s u r]) (use r(2) ent in simp)
      have su': "settled g d' pq' u" using rinvD(2) [OF r(2)] .
      have mono: "settled g d' pq' x" if "settled g d pq x" for x
        using r(3) pm(2) that by blast
      have "{x. hasNode g x \<and> \<not> settled g d' pq' x} \<subset> {x. hasNode g x \<and> \<not> settled g d pq x}"
        using mono su' pm(3) ry(1) by auto
      then have "card {x. hasNode g x \<and> \<not> settled g d' pq' x}
          < card {x. hasNode g x \<and> \<not> settled g d pq x}"
        by (rule psubset_card_mono [OF finU])
      then have less: "((d', p', pq'), (d, p, pq))
          \<in> measures [\<lambda>(d, p, pq). card {x. hasNode g x \<and> \<not> settled g d pq x},
                      \<lambda>(d, p, pq). length pq]"
        by simp
      from IH [OF less inv'] step r(1) zr show ?thesis by simp
    qed
  qed
qed

lemma dinv_init:
  assumes s: "hasNode g s"
  shows "dinv g s ((\<lambda>u. if hasNode g u then Some PInf else None)(s \<mapsto> Fin 0), Map.empty, [(Fin 0, s)])"
proof -
  let ?d = "(\<lambda>u. if hasNode g u then Some PInf else None)(s \<mapsto> Fin 0)"
  let ?q = "[(Fin 0, s)]"
  have fin_s: "x = s" if "?d x = Some (Fin y)" for x y
    using that by (auto split: if_splits)
  have ns: "\<not> settled g ?d ?q x" for x
  proof
    assume "settled g ?d ?q x"
    then obtain y where y: "?d x = Some (Fin y)" "(Fin y, x) \<notin> set ?q"
      unfolding settled_def by blast
    from fin_s [OF y(1)] y show False by simp
  qed
  have "base_inv g s ?d Map.empty ?q"
    unfolding base_inv_def
  proof (intro conjI allI impI)
    fix t y assume "hasNode g t" "?d t = Some (Fin y)"
    from fin_s [OF this(2)] have "back_walk g ?d Map.empty ?q s t []" by simp
    then show "\<exists>rs. back_walk g ?d Map.empty ?q s t rs" by blast
  next
    fix t y assume "?d t = Some y"
    then have "y = PInf \<or> y = Fin 0" by (auto split: if_splits)
    then show "is_dist y" using is_dist_zero by auto
  qed (use s ns in \<open>auto split: if_splits\<close>)
  with ns show ?thesis by (simp add: dinv_def)
qed

section \<open>The result\<close>

lemma final_lower:
  assumes inv: "dinv g s (d, p, [])" and nn: "nonneg_weights g"
  shows "is_walk g u steps \<Longrightarrow> d u = Some x \<Longrightarrow> d (walk_end u steps) = Some y \<Longrightarrow>
         y \<le> walk_sum x steps"
proof (induction steps arbitrary: u x)
  case Nil
  then show ?case by simp
next
  case (Cons e rest)
  note b = base_invD [OF dinvD(1) [OF inv]]
  obtain v w where e: "e = (v, w)" by (cases e)
  from Cons.prems(1) have mem: "(v, w) \<in> set (entries g u)" and wk: "is_walk g v rest"
    by (simp_all add: e)
  from Cons.prems(3) have en: "d (walk_end v rest) = Some y" by (simp add: e)
  from nn mem have w: "0 \<le> weight w" unfolding nonneg_weights_def by blast
  show ?case
  proof (cases x)
    case MInf
    with b(11) [OF Cons.prems(2)] show ?thesis by (simp add: is_dist_def)
  next
    case PInf
    then show ?thesis by (simp add: walk_sum_PInf)
  next
    case (Fin r)
    with entries_hasNode [OF mem] Cons.prems(2) have "settled g d [] u"
      by (simp add: settled_def)
    from dinvD(2) [OF inv this] mem Cons.prems(2) Fin obtain y' where
      y': "d v = Some y'" "y' \<le> dadd (Fin r) (weight w)"
      unfolding relaxed_def by fastforce
    from Cons.IH [OF wk y'(1) en] have 1: "y \<le> walk_sum y' rest" .
    have "walk_sum y' rest \<le> walk_sum (dadd (Fin r) (weight w)) rest"
    proof (rule walk_sum_mono)
      fix e' assume "e' \<in> set rest"
      with nn wk show "0 \<le> weight (snd e')" by (rule is_walk_nonneg)
    next
      show "Fin 0 \<le> y'" using b(11) [OF y'(1)] by (rule is_dist_lower)
    next
      show "y' \<le> dadd (Fin r) (weight w)" by (rule y'(2))
    qed
    with 1 have "y \<le> walk_sum (dadd (Fin r) (weight w)) rest" by (rule order_trans)
    then show ?thesis by (simp add: e Fin)
  qed
qed

lemma final_reached:
  assumes inv: "dinv g s (d, p, [])" and nn: "nonneg_weights g"
    and h: "hasNode g v" and dv: "d v = Some (Fin r)"
  shows "\<exists>steps. is_walk g s steps \<and> walk_end s steps = v \<and> walk_sum (Fin 0) steps = Fin r \<and>
           pathLoop p s v [] = Some (s # map fst steps) \<and>
           sorted (map (\<lambda>n. case d n of None \<Rightarrow> PInf | Some y \<Rightarrow> y) (s # map fst steps))"
proof -
  note b = base_invD [OF dinvD(1) [OF inv]]
  from b(8) [OF h dv] obtain rs where rs: "back_walk g d p [] s v rs" by blast
  from back_walk_dist [OF b(4) rs] dv have "walk_sum (Fin 0) (rev rs) = Fin r"
    by (simp add: back_sum_rev)
  moreover from back_walk_is_walk [OF rs] have "is_walk g s (rev rs)" "walk_end s (rev rs) = v"
    by simp_all
  moreover from back_walk_pathLoop [OF rs, of "[]"] have
    "pathLoop p s v [] = Some (s # map fst (rev rs))" by simp
  moreover from back_walk_sorted [OF b(11) nn rs] have
    "sorted (map (\<lambda>n. case d n of None \<Rightarrow> PInf | Some y \<Rightarrow> y) (s # map fst (rev rs)))"
    by simp
  ultimately show ?thesis by (intro exI [of _ "rev rs"] conjI)
qed

section \<open>The cheapest edges along a walk\<close>

lemma pair_weight_edge:
  assumes "(v, w) \<in> set (entries g u)"
  shows "\<exists>w'. (v, w') \<in> set (entries g u) \<and> weight w' = pair_weight g u v \<and>
              pair_weight g u v \<le> weight w"
proof -
  define S where "S = set (map (\<lambda>e. weight (snd e)) (filter (\<lambda>e. fst e = v) (entries g u)))"
  have fin: "finite S" by (simp add: S_def)
  have mem: "weight w \<in> S" unfolding S_def using assms by force
  then have ne: "S \<noteq> {}" by auto
  have "Min S \<in> S" using fin ne by (rule Min_in)
  then obtain e where e: "e \<in> set (entries g u)" "fst e = v" "weight (snd e) = Min S"
    unfolding S_def by auto
  have le: "Min S \<le> weight w" using fin mem by (rule Min_le)
  have pw: "pair_weight g u v = Min S" by (simp add: pair_weight_def S_def)
  have "(v, snd e) \<in> set (entries g u)" using e(1,2) by (cases e) auto
  with e(3) le show ?thesis unfolding pw by (intro exI [of _ "snd e"]) simp
qed

lemma cheapest_walk:
  assumes nn: "nonneg_weights g"
  shows "is_walk g u steps \<Longrightarrow> Fin 0 \<le> x \<Longrightarrow>
   \<exists>steps'. is_walk g u steps' \<and> map fst steps' = map fst steps \<and>
            walk_sum x steps' = path_sum g x (u # map fst steps) \<and>
            walk_sum x steps' \<le> walk_sum x steps"
proof (induction steps arbitrary: u x)
  case Nil
  have "is_walk g u [] \<and> map fst ([] :: ('a \<times> WeightedEdge) list) = map fst ([] :: ('a \<times> WeightedEdge) list) \<and>
        walk_sum x [] = path_sum g x (u # map fst ([] :: ('a \<times> WeightedEdge) list)) \<and>
        walk_sum x [] \<le> walk_sum x ([] :: ('a \<times> WeightedEdge) list)"
    by simp
  then show ?case by blast
next
  case (Cons e rest)
  obtain v w where e: "e = (v, w)" by (cases e)
  from Cons.prems have mem: "(v, w) \<in> set (entries g u)" and wk: "is_walk g v rest"
    by (simp_all add: e)
  from pair_weight_edge [OF mem] obtain w' where
    w': "(v, w') \<in> set (entries g u)" "weight w' = pair_weight g u v" "pair_weight g u v \<le> weight w"
    by blast
  from nn w'(1) have w0: "0 \<le> weight w'" unfolding nonneg_weights_def by blast
  let ?x1 = "dadd x (weight w')"
  have x1: "Fin 0 \<le> ?x1" using Cons.prems(2) w0 by (rule dadd_lower)
  have le1: "?x1 \<le> dadd x (weight w)"
    using Cons.prems(2) w0 w'(3) unfolding w'(2) [symmetric] by (rule dadd_mono2)
  from Cons.IH [OF wk x1] obtain rest' where
    r: "is_walk g v rest'" "map fst rest' = map fst rest"
      "walk_sum ?x1 rest' = path_sum g ?x1 (v # map fst rest)"
      "walk_sum ?x1 rest' \<le> walk_sum ?x1 rest"
    by blast
  have "walk_sum ?x1 rest \<le> walk_sum (dadd x (weight w)) rest"
  proof (rule walk_sum_mono [OF _ x1 le1])
    fix e' assume "e' \<in> set rest"
    with nn wk show "0 \<le> weight (snd e')" by (rule is_walk_nonneg)
  qed
  with r(4) have le: "walk_sum ?x1 rest' \<le> walk_sum (dadd x (weight w)) rest"
    by (rule order_trans)
  have "is_walk g u ((v, w') # rest') \<and> map fst ((v, w') # rest') = map fst (e # rest) \<and>
        walk_sum x ((v, w') # rest') = path_sum g x (u # map fst (e # rest)) \<and>
        walk_sum x ((v, w') # rest') \<le> walk_sum x (e # rest)"
    using w'(1,2) r(1,2,3) le by (simp add: e)
  then show ?case by blast
qed

lemma walk_end_map_fst: "map fst a = map fst b \<Longrightarrow> walk_end u a = walk_end u b"
  by (simp add: walk_end_def)

lemma final_path_sum:
  assumes inv: "dinv g s (d, p, [])" and nn: "nonneg_weights g" and wk: "is_walk g s steps"
    and dv: "d (walk_end s steps) = Some (walk_sum (Fin 0) steps)"
  shows "path_sum g (Fin 0) (s # map fst steps) = walk_sum (Fin 0) steps"
proof -
  note bi = base_invD [OF dinvD(1) [OF inv]]
  have z: "Fin 0 \<le> Fin 0" by simp
  from cheapest_walk [OF nn wk z] obtain steps' where
    c: "is_walk g s steps'" "map fst steps' = map fst steps"
      "walk_sum (Fin 0) steps' = path_sum g (Fin 0) (s # map fst steps)"
      "walk_sum (Fin 0) steps' \<le> walk_sum (Fin 0) steps"
    by blast
  have "d (walk_end s steps') = Some (walk_sum (Fin 0) steps)"
    using dv walk_end_map_fst [OF c(2), of s] by simp
  from final_lower [OF inv nn c(1) bi(4) this]
  have "walk_sum (Fin 0) steps \<le> walk_sum (Fin 0) steps'" .
  with c(4) have "walk_sum (Fin 0) steps' = walk_sum (Fin 0) steps" by (rule antisym)
  with c(3) show ?thesis by simp
qed

section \<open>Correctness of Dijkstra's algorithm\<close>

text \<open>Every graph built with the operations of the class has finitely many nodes.\<close>

lemma finite_dom_addNode: "finite (dom (adjacency g)) \<Longrightarrow> finite (dom (adjacency (addNode g n)))"
  by (simp add: addNode_def split: option.splits)

lemma finite_dom_addEdge: "finite (dom (adjacency g)) \<Longrightarrow> finite (dom (adjacency (addEdge g u v e)))"
proof -
  have "dom (adjacency (addEdge g u v e)) = insert u (insert v (dom (adjacency g)))"
    using hasNode_addEdge [of g u v e] by (auto simp: hasNode_def)
  then show "finite (dom (adjacency g)) \<Longrightarrow> finite (dom (adjacency (addEdge g u v e)))" by simp
qed

lemma finite_dom_removeNode:
  "finite (dom (adjacency g)) \<Longrightarrow> finite (dom (adjacency (removeNode g n)))"
proof -
  have "dom (adjacency (removeNode g n)) \<subseteq> dom (adjacency g)"
    by (auto simp: removeNode_def split: if_splits)
  then show "finite (dom (adjacency g)) \<Longrightarrow> finite (dom (adjacency (removeNode g n)))"
    by (rule finite_subset)
qed

lemma finite_dom_removeEdge:
  "finite (dom (adjacency g)) \<Longrightarrow> finite (dom (adjacency (removeEdge g u v)))"
proof -
  have "dom (adjacency (removeEdge g u v)) \<subseteq> dom (adjacency g)"
    by (auto simp: removeEdge_def Let_def split: if_splits option.splits)
  then show "finite (dom (adjacency g)) \<Longrightarrow> finite (dom (adjacency (removeEdge g u v)))"
    by (rule finite_subset)
qed

lemma finite_dom_new: "finite (dom (adjacency (Graph_new b)))"
  by (simp add: Graph_new_def)

lemma dist_of_eq: "dist_of dj = (\<lambda>n. case dist dj n of None \<Rightarrow> PInf | Some y \<Rightarrow> y)"
  by (rule ext) (simp add: dist_of_def)

text \<open>
  Claim C1, as amended. Let the graph have finitely many nodes (as every
  \<^verbatim>\<open>std::map\<close> has), no negative weight, and let \<open>start\<close> be one of its nodes. Then
  \<open>Dijkstra::run(g, start)\<close> terminates, and afterwards, for every node \<open>v\<close>: \<open>dist[v]\<close>
  is not negative and is at most the sum of every walk from \<open>start\<close> to \<open>v\<close>, the sum being
  taken as the code takes it, in doubles from \<open>start\<close> on in the order of the walk; it is
  \<open>+\<infinity>\<close> exactly when every such sum is \<open>+\<infinity>\<close>, as it is when there is no walk; and when
  it is finite it is the sum in doubles of a walk from \<open>start\<close> to \<open>v\<close>, so it is the minimum
  of these sums over all paths, and \<open>getPathTo(start, v)\<close> returns the node sequence of
  such a walk, whose consecutive-pair weights add up in doubles to \<open>dist[v]\<close> and along
  which the recorded distance does not decrease from one node to the next.
\<close>

theorem dijkstra_shortest_paths:
  assumes "finite (dom (adjacency g))" and "nonneg_weights g" and "hasNode g start"
  shows "\<exists>dj. run g start = Some dj \<and>
    (\<forall>v. hasNode g v \<longrightarrow>
       (\<exists>dv. dist dj v = Some dv \<and> Fin 0 \<le> dv \<and>
          (\<forall>steps. is_walk g start steps \<and> walk_end start steps = v \<longrightarrow>
                   dv \<le> walk_sum (Fin 0) steps) \<and>
          ((dv = PInf) =
             (\<forall>steps. is_walk g start steps \<and> walk_end start steps = v \<longrightarrow>
                      walk_sum (Fin 0) steps = PInf)) \<and>
          (\<forall>r. dv = Fin r \<longrightarrow>
             (\<exists>steps. is_walk g start steps \<and> walk_end start steps = v \<and>
                      walk_sum (Fin 0) steps = Fin r \<and>
                      getPathTo dj start v = Some (start # map fst steps) \<and>
                      path_sum g (Fin 0) (start # map fst steps) = Fin r \<and>
                      sorted (map (dist_of dj) (start # map fst steps))))))"
proof -
  from run_loop_terminates [OF assms(1,2) dinv_init [OF assms(3)]] obtain dj where
    dj: "run g start = Some dj" and inv: "dinv g start (dist dj, parent dj, [])"
    using assms(3) by (auto simp: run_def Let_def)
  note bi = base_invD [OF dinvD(1) [OF inv]]
  have node: "\<exists>dv. dist dj v = Some dv \<and> Fin 0 \<le> dv \<and>
          (\<forall>steps. is_walk g start steps \<and> walk_end start steps = v \<longrightarrow>
                   dv \<le> walk_sum (Fin 0) steps) \<and>
          ((dv = PInf) =
             (\<forall>steps. is_walk g start steps \<and> walk_end start steps = v \<longrightarrow>
                      walk_sum (Fin 0) steps = PInf)) \<and>
          (\<forall>r. dv = Fin r \<longrightarrow>
             (\<exists>steps. is_walk g start steps \<and> walk_end start steps = v \<and>
                      walk_sum (Fin 0) steps = Fin r \<and>
                      getPathTo dj start v = Some (start # map fst steps) \<and>
                      path_sum g (Fin 0) (start # map fst steps) = Fin r \<and>
                      sorted (map (dist_of dj) (start # map fst steps))))"
    if h: "hasNode g v" for v
  proof -
    from bi(1) [OF h] obtain dv where dv: "dist dj v = Some dv" by blast
    have pos: "Fin 0 \<le> dv" using bi(11) [OF dv] by (rule is_dist_lower)
    have low: "dv \<le> walk_sum (Fin 0) steps"
      if "is_walk g start steps" "walk_end start steps = v" for steps
      using final_lower [OF inv assms(2) that(1) bi(4)] that(2) dv by simp
    have reach: "\<exists>steps. is_walk g start steps \<and> walk_end start steps = v \<and>
                      walk_sum (Fin 0) steps = Fin r \<and>
                      getPathTo dj start v = Some (start # map fst steps) \<and>
                      path_sum g (Fin 0) (start # map fst steps) = Fin r \<and>
                      sorted (map (dist_of dj) (start # map fst steps))" if "dv = Fin r" for r
    proof -
      from that dv have d: "dist dj v = Some (Fin r)" by simp
      from final_reached [OF inv assms(2) h d] obtain steps where
        st: "is_walk g start steps" "walk_end start steps = v" "walk_sum (Fin 0) steps = Fin r"
        "pathLoop (parent dj) start v [] = Some (start # map fst steps)"
        "sorted (map (\<lambda>n. case dist dj n of None \<Rightarrow> PInf | Some y \<Rightarrow> y) (start # map fst steps))"
        by blast
      have gp: "getPathTo dj start v = Some (start # map fst steps)"
        using d st(4) by (simp add: getPathTo_def)
      have "dist dj (walk_end start steps) = Some (walk_sum (Fin 0) steps)"
        using d st(2,3) by simp
      from final_path_sum [OF inv assms(2) st(1) this]
      have ps: "path_sum g (Fin 0) (start # map fst steps) = Fin r" using st(3) by simp
      have so: "sorted (map (dist_of dj) (start # map fst steps))"
        unfolding dist_of_eq by (rule st(5))
      from st(1,2,3) gp ps so show ?thesis by (intro exI [of _ steps] conjI)
    qed
    have inf: "(dv = PInf) =
             (\<forall>steps. is_walk g start steps \<and> walk_end start steps = v \<longrightarrow>
                      walk_sum (Fin 0) steps = PInf)"
    proof (cases dv)
      case MInf
      with pos show ?thesis by simp
    next
      case (Fin r)
      from reach [OF Fin] obtain steps where
        "is_walk g start steps" "walk_end start steps = v" "walk_sum (Fin 0) steps = Fin r"
        by blast
      then have "\<not> (\<forall>steps. is_walk g start steps \<and> walk_end start steps = v \<longrightarrow>
                      walk_sum (Fin 0) steps = PInf)"
        by (intro notI) (erule allE [of _ steps], simp)
      with Fin show ?thesis by simp
    next
      case PInf
      have "walk_sum (Fin 0) steps = PInf"
        if "is_walk g start steps \<and> walk_end start steps = v" for steps
        using low [of steps] that PInf by simp
      with PInf show ?thesis by simp
    qed
    from dv pos low reach inf show ?thesis by (intro exI [of _ dv] conjI allI impI) simp_all
  qed
  from dj node show ?thesis by (intro exI [of _ dj] conjI allI impI)
qed

lemma wg_ex_eq:
  "wg_ex = \<lparr>adjacency = [1 \<mapsto> [(2, \<lparr>weight = 5\<rparr>), (3, \<lparr>weight = 9\<rparr>)],
                         2 \<mapsto> [(3, \<lparr>weight = 2\<rparr>)], 3 \<mapsto> [], 4 \<mapsto> []],
             directed = True\<rparr>"
  by (auto simp: wg_ex_def addEdge_def Graph_new_def addNode_def push_back_at_def Let_def)

lemma wg_ex_nodes: "hasNode wg_ex x = (x = 1 \<or> x = 2 \<or> x = 3 \<or> x = 4)"
  by (simp add: wg_ex_eq hasNode_def)

lemma wg_ex_adjacency:
  "adjacency wg_ex (Suc 0) = Some [(2, \<lparr>weight = 5\<rparr>), (3, \<lparr>weight = 9\<rparr>)]"
  "adjacency wg_ex 2 = Some [(3, \<lparr>weight = 2\<rparr>)]"
  "adjacency wg_ex 3 = Some []"
  by (simp_all add: wg_ex_eq)

lemma wg_ex_run:
  "run wg_ex 1 = Some \<lparr>dist = (\<lambda>u. if hasNode wg_ex u then Some PInf else None)
                              (1 \<mapsto> Fin 0, 2 \<mapsto> Fin 5, 3 \<mapsto> Fin 9, 3 \<mapsto> Fin 7),
                        parent = [2 \<mapsto> 1, 3 \<mapsto> 1, 3 \<mapsto> 2]\<rparr>"
  unfolding run_def
  apply (simp add: wg_ex_nodes)
  apply (subst run_loop.simps, simp add: wg_ex_nodes wg_ex_adjacency dist_at_def Let_def rnd_5 rnd_7 rnd_9)
  apply (subst run_loop.simps, simp add: wg_ex_nodes wg_ex_adjacency dist_at_def Let_def rnd_5 rnd_7 rnd_9)
  apply (subst run_loop.simps, simp add: wg_ex_nodes wg_ex_adjacency dist_at_def Let_def rnd_5 rnd_7 rnd_9)
  apply (subst run_loop.simps, simp add: wg_ex_nodes wg_ex_adjacency dist_at_def Let_def rnd_5 rnd_7 rnd_9)
  apply (subst run_loop.simps, simp add: wg_ex_nodes wg_ex_adjacency dist_at_def Let_def rnd_5 rnd_7 rnd_9)
  done

lemma wg_ex_nonneg: "nonneg_weights wg_ex"
  unfolding nonneg_weights_def
proof (intro allI impI)
  fix u v w assume "(v, w) \<in> set (entries wg_ex u)"
  then show "0 \<le> weight w"
    by (auto simp: entries_def wg_ex_eq split: if_splits)
qed

lemma wg_ex_paths:
  assumes "dj = \<lparr>dist = (\<lambda>u. if hasNode wg_ex u then Some PInf else None)
                              (1 \<mapsto> Fin 0, 2 \<mapsto> Fin 5, 3 \<mapsto> Fin 9, 3 \<mapsto> Fin 7),
                 parent = [2 \<mapsto> 1, 3 \<mapsto> 1, 3 \<mapsto> 2]\<rparr>"
  shows "getPathTo dj 1 3 = Some [1, 2, 3]" and "getPathTo dj 1 4 = Some []"
    and "dist dj 1 = Some (Fin 0)" and "dist dj 2 = Some (Fin 5)"
    and "dist dj 3 = Some (Fin 7)" and "dist dj 4 = Some PInf"
proof -
  show "getPathTo dj 1 3 = Some [1, 2, 3]"
    unfolding getPathTo_def assms
    apply simp
    apply (subst pathLoop.simps, simp)
    apply (subst pathLoop.simps, simp)
    apply (subst pathLoop.simps, simp)
    done
  show "getPathTo dj 1 4 = Some []"
    unfolding getPathTo_def assms by (simp add: wg_ex_nodes)
  show "dist dj 1 = Some (Fin 0)" "dist dj 2 = Some (Fin 5)"
    "dist dj 3 = Some (Fin 7)" "dist dj 4 = Some PInf"
    unfolding assms by (simp_all add: wg_ex_nodes)
qed

theorem dijkstra_shortest_paths_witness:
  "finite (dom (adjacency wg_ex)) \<and> nonneg_weights wg_ex \<and> hasNode wg_ex 1 \<and>
   dist_after wg_ex 1 1 = Some (Fin 0) \<and> dist_after wg_ex 1 2 = Some (Fin 5) \<and>
   dist_after wg_ex 1 3 = Some (Fin 7) \<and> dist_after wg_ex 1 4 = Some PInf \<and>
   path_after wg_ex 1 3 = Some [1, 2, 3] \<and> path_after wg_ex 1 4 = Some [] \<and>
   (\<exists>steps. is_walk wg_ex 1 steps \<and> walk_end 1 steps = 3 \<and> walk_sum (Fin 0) steps = Fin 7 \<and>
            1 # map fst steps = [1, 2, 3] \<and> path_sum wg_ex (Fin 0) [1, 2, 3] = Fin 7 \<and>
            sorted [Fin 0, Fin 5, Fin 7])"
proof -
  have fin: "finite (dom (adjacency wg_ex))" by (simp add: wg_ex_eq)
  have h: "hasNode wg_ex 1" "hasNode wg_ex 3" by (simp_all add: wg_ex_nodes)
  from dijkstra_shortest_paths [OF fin wg_ex_nonneg h(1)] obtain dj where
    dj: "run wg_ex 1 = Some dj"
    and reach: "\<And>v. hasNode wg_ex v \<Longrightarrow> \<exists>dv. dist dj v = Some dv \<and>
          (\<forall>r. dv = Fin r \<longrightarrow>
             (\<exists>steps. is_walk wg_ex 1 steps \<and> walk_end 1 steps = v \<and>
                      walk_sum (Fin 0) steps = Fin r \<and>
                      getPathTo dj 1 v = Some (1 # map fst steps) \<and>
                      path_sum wg_ex (Fin 0) (1 # map fst steps) = Fin r \<and>
                      sorted (map (dist_of dj) (1 # map fst steps))))"
    by blast
  from dj wg_ex_run have eq: "dj = \<lparr>dist = (\<lambda>u. if hasNode wg_ex u then Some PInf else None)
                              (1 \<mapsto> Fin 0, 2 \<mapsto> Fin 5, 3 \<mapsto> Fin 9, 3 \<mapsto> Fin 7),
                 parent = [2 \<mapsto> 1, 3 \<mapsto> 1, 3 \<mapsto> 2]\<rparr>"
    by simp
  note v = wg_ex_paths [OF eq]
  have m: "map (dist_of dj) [1, 2, 3] = [Fin 0, Fin 5, Fin 7]"
    using v(3,4,5) by (simp add: dist_of_def)
  from reach [OF h(2)] v(5) obtain steps where
    st: "is_walk wg_ex 1 steps" "walk_end 1 steps = 3" "walk_sum (Fin 0) steps = Fin 7"
    "getPathTo dj 1 3 = Some (1 # map fst steps)" "path_sum wg_ex (Fin 0) (1 # map fst steps) = Fin 7"
    "sorted (map (dist_of dj) (1 # map fst steps))"
    by auto
  from st(4) v(1) have pe: "1 # map fst steps = [1, 2, 3]" by simp
  from st(5,6) have "path_sum wg_ex (Fin 0) [1, 2, 3] = Fin 7" "sorted [Fin 0, Fin 5, Fin 7]"
    unfolding pe m by simp_all
  with st(1,2,3) pe
  have "\<exists>steps. is_walk wg_ex 1 steps \<and> walk_end 1 steps = 3 \<and> walk_sum (Fin 0) steps = Fin 7 \<and>
            1 # map fst steps = [1, 2, 3] \<and> path_sum wg_ex (Fin 0) [1, 2, 3] = Fin 7 \<and>
            sorted [Fin 0, Fin 5, Fin 7]"
    by (intro exI [of _ steps] conjI)
  with fin wg_ex_nonneg h(1) dj v show ?thesis
    by (simp add: dist_after_def path_after_def)
qed

section \<open>Where the distances differ from the sums of real numbers\<close>

lemma g_round_eq:
  "g_round = \<lparr>adjacency = [1 \<mapsto> [(2, \<lparr>weight = 1\<rparr>),
                                    (3, \<lparr>weight = 4503599627370497 / 4503599627370496\<rparr>)],
                           2 \<mapsto> [(3, \<lparr>weight = 3 / 18014398509481984\<rparr>)], 3 \<mapsto> []],
               directed = True\<rparr>"
  by (auto simp: g_round_def addEdge_def Graph_new_def addNode_def push_back_at_def Let_def)

lemma g_round_nodes: "hasNode g_round x = (x = 1 \<or> x = 2 \<or> x = 3)"
  by (simp add: g_round_eq hasNode_def)

lemma g_round_adjacency:
  "adjacency g_round (Suc 0) = Some [(2, \<lparr>weight = 1\<rparr>),
                                     (3, \<lparr>weight = 4503599627370497 / 4503599627370496\<rparr>)]"
  "adjacency g_round 2 = Some [(3, \<lparr>weight = 3 / 18014398509481984\<rparr>)]"
  "adjacency g_round 3 = Some []"
  by (simp_all add: g_round_eq)

lemma g_round_nonneg: "nonneg_weights g_round"
  unfolding nonneg_weights_def
proof (intro allI impI)
  fix u v w assume "(v, w) \<in> set (entries g_round u)"
  then show "0 \<le> weight w"
    by (auto simp: entries_def g_round_eq split: if_splits)
qed

lemma g_round_run:
  "run g_round 1 = Some \<lparr>dist = (\<lambda>u. if hasNode g_round u then Some PInf else None)
                              (1 \<mapsto> Fin 0, 2 \<mapsto> Fin 1,
                               3 \<mapsto> Fin (4503599627370497 / 4503599627370496)),
                        parent = [2 \<mapsto> 1, 3 \<mapsto> 1]\<rparr>"
  unfolding run_def
  apply (simp add: g_round_nodes)
  apply (subst run_loop.simps, simp add: g_round_nodes g_round_adjacency dist_at_def Let_def rnd_1 rnd_next_1 rnd_round_up)
  apply (subst run_loop.simps, simp add: g_round_nodes g_round_adjacency dist_at_def Let_def rnd_1 rnd_next_1 rnd_round_up)
  apply (subst run_loop.simps, simp add: g_round_nodes g_round_adjacency dist_at_def Let_def rnd_1 rnd_next_1 rnd_round_up)
  apply (subst run_loop.simps, simp add: g_round_nodes g_round_adjacency dist_at_def Let_def rnd_1 rnd_next_1 rnd_round_up)
  done

lemma g_round_path:
  "getPathTo \<lparr>dist = (\<lambda>u. if hasNode g_round u then Some PInf else None)
                              (1 \<mapsto> Fin 0, 2 \<mapsto> Fin 1,
                               3 \<mapsto> Fin (4503599627370497 / 4503599627370496)),
              parent = [2 \<mapsto> 1, 3 \<mapsto> 1]\<rparr> 1 3 = Some [1, 3]"
  unfolding getPathTo_def
  apply simp
  apply (subst pathLoop.simps, simp)
  apply (subst pathLoop.simps, simp)
  done

lemma g_absorb_eq:
  "g_absorb = \<lparr>adjacency = [1 \<mapsto> [(3, \<lparr>weight = 1 / 2\<rparr>), (2, \<lparr>weight = 1\<rparr>)],
                            2 \<mapsto> [(3, \<lparr>weight = 0\<rparr>)],
                            3 \<mapsto> [(4, \<lparr>weight = 1152921504606846976\<rparr>)], 4 \<mapsto> []],
                directed = True\<rparr>"
  by (auto simp: g_absorb_def addEdge_def Graph_new_def addNode_def push_back_at_def Let_def)

lemma g_absorb_nodes: "hasNode g_absorb x = (x = 1 \<or> x = 2 \<or> x = 3 \<or> x = 4)"
  by (simp add: g_absorb_eq hasNode_def)

lemma g_absorb_adjacency:
  "adjacency g_absorb (Suc 0) = Some [(3, \<lparr>weight = 1 / 2\<rparr>), (2, \<lparr>weight = 1\<rparr>)]"
  "adjacency g_absorb 2 = Some [(3, \<lparr>weight = 0\<rparr>)]"
  "adjacency g_absorb 3 = Some [(4, \<lparr>weight = 1152921504606846976\<rparr>)]"
  "adjacency g_absorb 4 = Some []"
  by (simp_all add: g_absorb_eq)

lemma g_absorb_nonneg: "nonneg_weights g_absorb"
  unfolding nonneg_weights_def
proof (intro allI impI)
  fix u v w assume "(v, w) \<in> set (entries g_absorb u)"
  then show "0 \<le> weight w"
    by (auto simp: entries_def g_absorb_eq split: if_splits)
qed

lemma g_absorb_run:
  "run g_absorb 1 = Some \<lparr>dist = (\<lambda>u. if hasNode g_absorb u then Some PInf else None)
                              (1 \<mapsto> Fin 0, 3 \<mapsto> Fin (1 / 2), 2 \<mapsto> Fin 1,
                               4 \<mapsto> Fin 1152921504606846976),
                        parent = [3 \<mapsto> 1, 2 \<mapsto> 1, 4 \<mapsto> 3]\<rparr>"
  unfolding run_def
  apply (simp add: g_absorb_nodes)
  apply (subst run_loop.simps, simp add: g_absorb_nodes g_absorb_adjacency dist_at_def Let_def rnd_1 rnd_half rnd_absorb_half)
  apply (subst run_loop.simps, simp add: g_absorb_nodes g_absorb_adjacency dist_at_def Let_def rnd_1 rnd_half rnd_absorb_half)
  apply (subst run_loop.simps, simp add: g_absorb_nodes g_absorb_adjacency dist_at_def Let_def rnd_1 rnd_half rnd_absorb_half)
  apply (subst run_loop.simps, simp add: g_absorb_nodes g_absorb_adjacency dist_at_def Let_def rnd_1 rnd_half rnd_absorb_half)
  apply (subst run_loop.simps, simp add: g_absorb_nodes g_absorb_adjacency dist_at_def Let_def rnd_1 rnd_half rnd_absorb_half)
  done

lemma g_over_eq:
  "g_over = \<lparr>adjacency = [1 \<mapsto> [(2, \<lparr>weight = 2 ^ 1023\<rparr>)],
                          2 \<mapsto> [(3, \<lparr>weight = 2 ^ 1023\<rparr>)], 3 \<mapsto> []],
              directed = True\<rparr>"
  by (auto simp: g_over_def addEdge_def Graph_new_def addNode_def push_back_at_def Let_def)

lemma g_over_nodes: "hasNode g_over x = (x = 1 \<or> x = 2 \<or> x = 3)"
  by (simp add: g_over_eq hasNode_def)

lemma g_over_adjacency:
  "adjacency g_over (Suc 0) = Some [(2, \<lparr>weight = 2 ^ 1023\<rparr>)]"
  "adjacency g_over 2 = Some [(3, \<lparr>weight = 2 ^ 1023\<rparr>)]"
  "adjacency g_over 3 = Some []"
  by (simp_all add: g_over_eq)

lemma g_over_nonneg: "nonneg_weights g_over"
  unfolding nonneg_weights_def
proof (intro allI impI)
  fix u v w assume "(v, w) \<in> set (entries g_over u)"
  then show "0 \<le> weight w"
    by (auto simp: entries_def g_over_eq split: if_splits)
qed

lemma g_over_run:
  "run g_over 1 = Some \<lparr>dist = (\<lambda>u. if hasNode g_over u then Some PInf else None)
                              (1 \<mapsto> Fin 0, 2 \<mapsto> Fin (2 ^ 1023)),
                        parent = [2 \<mapsto> 1]\<rparr>"
  unfolding run_def
  apply (simp add: g_over_nodes)
  apply (subst run_loop.simps, simp add: g_over_nodes g_over_adjacency dist_at_def Let_def rnd_2_1023 [simplified] rnd_overflow [simplified])
  apply (subst run_loop.simps, simp add: g_over_nodes g_over_adjacency dist_at_def Let_def rnd_2_1023 [simplified] rnd_overflow [simplified])
  apply (subst run_loop.simps, simp add: g_over_nodes g_over_adjacency dist_at_def Let_def rnd_2_1023 [simplified] rnd_overflow [simplified])
  done

lemma g_absorb_path:
  "getPathTo \<lparr>dist = (\<lambda>u. if hasNode g_absorb u then Some PInf else None)
                              (1 \<mapsto> Fin 0, 3 \<mapsto> Fin (1 / 2), 2 \<mapsto> Fin 1,
                               4 \<mapsto> Fin 1152921504606846976),
              parent = [3 \<mapsto> 1, 2 \<mapsto> 1, 4 \<mapsto> 3]\<rparr> 1 4 = Some [1, 3, 4]"
  unfolding getPathTo_def
  apply simp
  apply (subst pathLoop.simps, simp)
  apply (subst pathLoop.simps, simp)
  apply (subst pathLoop.simps, simp)
  done

text \<open>
  With the weight of a path the sum of its edge weights as real numbers, the distances
  of the code, which are sums of doubles, are not the least weights. On \<open>g_round\<close>,
  whose weights are doubles, the walk 1, 2, 3 weighs \<open>1 + 3 * 2 ^ -54\<close>, which is less
  than the distance \<open>1 + 2 ^ -52\<close> that \<open>run\<close> records for node 3: the sum in doubles of
  that walk is rounded up to \<open>1 + 2 ^ -52\<close>, the relaxation of the edge 2-3 changes
  nothing, and \<open>getPathTo\<close> returns 1, 3. On \<open>g_absorb\<close> the sequence 1, 3, 4 that
  \<open>getPathTo\<close> returns for node 4 has the weight \<open>2 ^ 60 + 1 / 2\<close>, which is not the
  distance \<open>2 ^ 60\<close> recorded for node 4; and the walk 1, 2, 3, 4, whose sum in doubles is
  that distance, passes node 2 of distance \<open>1\<close> before node 3 of distance \<open>1 / 2\<close>. On
  \<open>g_over\<close> node 3 is reached by the walk 1, 2, 3 of weight \<open>2 ^ 1024\<close>, and its recorded
  distance is \<open>+\<infinity>\<close>.
\<close>

theorem dijkstra_rounding_counterexample:
  "finite (dom (adjacency g_round)) \<and> nonneg_weights g_round \<and> hasNode g_round 1 \<and>
   is_double 1 \<and> is_double (4503599627370497 / 4503599627370496) \<and>
   is_double (3 / 18014398509481984) \<and>
   dist_after g_round 1 3 = Some (Fin (4503599627370497 / 4503599627370496)) \<and>
   parent_after g_round 1 3 = Some 1 \<and> path_after g_round 1 3 = Some [1, 3] \<and>
   is_walk g_round 1 [(2, \<lparr>weight = 1\<rparr>), (3, \<lparr>weight = 3 / 18014398509481984\<rparr>)] \<and>
   walk_end 1 [(2 :: nat, \<lparr>weight = 1\<rparr>), (3, \<lparr>weight = 3 / 18014398509481984\<rparr>)] = 3 \<and>
   Fin (walk_weight [(2 :: nat, \<lparr>weight = 1\<rparr>), (3, \<lparr>weight = 3 / 18014398509481984\<rparr>)])
     < Fin (4503599627370497 / 4503599627370496) \<and>
   finite (dom (adjacency g_absorb)) \<and> nonneg_weights g_absorb \<and> hasNode g_absorb 1 \<and>
   is_double (1 / 2) \<and> is_double 0 \<and> is_double 1152921504606846976 \<and>
   dist_after g_absorb 1 2 = Some (Fin 1) \<and> dist_after g_absorb 1 3 = Some (Fin (1 / 2)) \<and>
   dist_after g_absorb 1 4 = Some (Fin 1152921504606846976) \<and>
   path_after g_absorb 1 4 = Some [1, 3, 4] \<and>
   pair_weight g_absorb 1 3 + pair_weight g_absorb 3 4 = 1152921504606846976 + 1 / 2 \<and>
   is_walk g_absorb 1
     [(2, \<lparr>weight = 1\<rparr>), (3, \<lparr>weight = 0\<rparr>), (4, \<lparr>weight = 1152921504606846976\<rparr>)] \<and>
   walk_end 1
     [(2 :: nat, \<lparr>weight = 1\<rparr>), (3, \<lparr>weight = 0\<rparr>), (4, \<lparr>weight = 1152921504606846976\<rparr>)] = 4 \<and>
   walk_sum (Fin 0)
     [(2 :: nat, \<lparr>weight = 1\<rparr>), (3, \<lparr>weight = 0\<rparr>), (4, \<lparr>weight = 1152921504606846976\<rparr>)]
     = Fin 1152921504606846976 \<and>
   Fin (1 / 2) < Fin 1 \<and>
   finite (dom (adjacency g_over)) \<and> nonneg_weights g_over \<and> hasNode g_over 1 \<and>
   is_double (2 ^ 1023) \<and>
   dist_after g_over 1 3 = Some PInf \<and> path_after g_over 1 3 = Some [] \<and>
   is_walk g_over 1 [(2, \<lparr>weight = 2 ^ 1023\<rparr>), (3, \<lparr>weight = 2 ^ 1023\<rparr>)] \<and>
   walk_end 1 [(2 :: nat, \<lparr>weight = 2 ^ 1023\<rparr>), (3, \<lparr>weight = 2 ^ 1023\<rparr>)] = 3 \<and>
   walk_weight [(2 :: nat, \<lparr>weight = 2 ^ 1023\<rparr>), (3, \<lparr>weight = 2 ^ 1023\<rparr>)] = 2 ^ 1024"
proof -
  have dbl: "is_double 1" "is_double (4503599627370497 / 4503599627370496)"
    "is_double (3 / 18014398509481984)" "is_double (1 / 2)" "is_double 0"
    "is_double 1152921504606846976" "is_double (2 ^ 1023)"
    using rnd_1 rnd_next_1 rnd_small rnd_half rnd_nonneg_zero rnd_2_60 rnd_2_1023
    by (simp_all add: is_double_def rnd_of_nonneg)
  have r1: "finite (dom (adjacency g_round))" "hasNode g_round 1"
    by (simp_all add: g_round_eq hasNode_def)
  have r2: "dist_after g_round 1 3 = Some (Fin (4503599627370497 / 4503599627370496))"
    "parent_after g_round 1 3 = Some 1" "path_after g_round 1 3 = Some [1, 3]"
    using g_round_path unfolding dist_after_def parent_after_def path_after_def g_round_run
    by simp_all
  have r3: "is_walk g_round 1 [(2, \<lparr>weight = 1\<rparr>), (3, \<lparr>weight = 3 / 18014398509481984\<rparr>)]"
    "walk_end 1 [(2 :: nat, \<lparr>weight = 1\<rparr>), (3, \<lparr>weight = 3 / 18014398509481984\<rparr>)] = 3"
    "Fin (walk_weight [(2 :: nat, \<lparr>weight = 1\<rparr>), (3, \<lparr>weight = 3 / 18014398509481984\<rparr>)])
       < Fin (4503599627370497 / 4503599627370496)"
    by (simp_all add: entries_def g_round_adjacency)
  have a1: "finite (dom (adjacency g_absorb))" "hasNode g_absorb 1"
    by (simp_all add: g_absorb_eq hasNode_def)
  have a2: "dist_after g_absorb 1 2 = Some (Fin 1)" "dist_after g_absorb 1 3 = Some (Fin (1 / 2))"
    "dist_after g_absorb 1 4 = Some (Fin 1152921504606846976)"
    "path_after g_absorb 1 4 = Some [1, 3, 4]"
    using g_absorb_path unfolding dist_after_def path_after_def g_absorb_run
    by simp_all
  have a3: "pair_weight g_absorb 1 3 + pair_weight g_absorb 3 4 = 1152921504606846976 + 1 / 2"
    by (simp add: pair_weight_def entries_def g_absorb_adjacency)
  have a4: "is_walk g_absorb 1
     [(2, \<lparr>weight = 1\<rparr>), (3, \<lparr>weight = 0\<rparr>), (4, \<lparr>weight = 1152921504606846976\<rparr>)]"
    "walk_end 1
     [(2 :: nat, \<lparr>weight = 1\<rparr>), (3, \<lparr>weight = 0\<rparr>), (4, \<lparr>weight = 1152921504606846976\<rparr>)] = 4"
    by (simp_all add: entries_def g_absorb_adjacency)
  have a5: "walk_sum (Fin 0)
     [(2 :: nat, \<lparr>weight = 1\<rparr>), (3, \<lparr>weight = 0\<rparr>), (4, \<lparr>weight = 1152921504606846976\<rparr>)]
     = Fin 1152921504606846976"
    by (simp add: rnd_1 rnd_absorb_1)
  have a6: "Fin (1 / 2) < Fin 1" by simp
  have o1: "finite (dom (adjacency g_over))" "hasNode g_over 1"
    by (simp_all add: g_over_eq hasNode_def)
  have o2: "dist_after g_over 1 3 = Some PInf" "path_after g_over 1 3 = Some []"
    unfolding dist_after_def path_after_def g_over_run
    by (simp_all add: getPathTo_def g_over_nodes)
  have o3: "is_walk g_over 1 [(2, \<lparr>weight = 2 ^ 1023\<rparr>), (3, \<lparr>weight = 2 ^ 1023\<rparr>)]"
    "walk_end 1 [(2 :: nat, \<lparr>weight = 2 ^ 1023\<rparr>), (3, \<lparr>weight = 2 ^ 1023\<rparr>)] = 3"
    "walk_weight [(2 :: nat, \<lparr>weight = 2 ^ 1023\<rparr>), (3, \<lparr>weight = 2 ^ 1023\<rparr>)] = 2 ^ 1024"
    by (simp_all add: entries_def g_over_adjacency)
  from dbl r1 g_round_nonneg r2 r3 a1 g_absorb_nonneg a2 a3 a4 a5 a6 o1 g_over_nonneg o2 o3
  show ?thesis by (intro conjI)
qed

section \<open>Path reconstruction\<close>

lemma run_dinv:
  assumes "finite (dom (adjacency g))" and "nonneg_weights g" and "hasNode g s"
  shows "\<exists>dj. run g s = Some dj \<and> dinv g s (dist dj, parent dj, [])"
  using run_loop_terminates [OF assms(1,2) dinv_init [OF assms(3)]] assms(3)
  by (simp add: run_def Let_def)

lemma pathLoop_returns:
  assumes p1: "p s = None"
  shows "back_walk g d p pq s v rs \<Longrightarrow> \<exists>xs. pathLoop p start v acc = Some xs"
proof (induction rs arbitrary: v acc)
  case Nil
  then have v: "v = s" by simp
  show ?case unfolding v using p1 by (subst pathLoop.simps) simp
next
  case (Cons e rs)
  obtain v' w where e: "e = (v', w)" by (cases e)
  from Cons.prems obtain u where u: "p v = Some u" "back_walk g d p pq s u rs"
    by (auto simp: e split: option.splits)
  show ?case
  proof (cases "v = start")
    case True
    then show ?thesis by (subst pathLoop.simps) simp
  next
    case False
    have "pathLoop p start v acc = pathLoop p start u (acc @ [v])"
      using False u(1) by (subst pathLoop.simps) simp
    with Cons.IH [OF u(2), of "acc @ [v]"] show ?thesis by simp
  qed
qed

lemma final_total:
  assumes inv: "dinv g s (dist dj, parent dj, [])"
  shows "\<exists>xs. getPathTo dj start target = Some xs"
proof (cases "dist dj target = None \<or> dist dj target = Some PInf")
  case True
  then show ?thesis by (simp add: getPathTo_def)
next
  case False
  note b = base_invD [OF dinvD(1) [OF inv]]
  from False obtain y where y: "dist dj target = Some y" "y \<noteq> PInf"
    by (cases "dist dj target") simp_all
  from b(11) [OF y(1)] y(2) obtain r where "y = Fin r"
    by (cases y) (simp_all add: is_dist_def)
  with y(1) have r: "dist dj target = Some (Fin r)" by simp
  have eq: "getPathTo dj start target = pathLoop (parent dj) start target []"
    using r by (simp add: getPathTo_def)
  show ?thesis
  proof (cases "hasNode g target")
    case True
    from b(8) [OF True r] obtain rs where
      "back_walk g (dist dj) (parent dj) [] s target rs" by blast
    from pathLoop_returns [OF b(9) this, of start "[]"] eq show ?thesis by simp
  next
    case False
    with b(10) [of target] have "parent dj target = None" by blast
    then have "\<exists>xs. pathLoop (parent dj) start target [] = Some xs"
      by (subst pathLoop.simps) simp
    with eq show ?thesis by simp
  qed
qed

lemma run_getPathTo_returns:
  assumes "finite (dom (adjacency g))" and "nonneg_weights g"
  shows "\<exists>dj xs. run g s = Some dj \<and> getPathTo dj start target = Some xs"
proof (cases "hasNode g s")
  case True
  from run_dinv [OF assms True] obtain dj where
    dj: "run g s = Some dj" "dinv g s (dist dj, parent dj, [])" by blast
  from final_total [OF dj(2), of start target] dj(1) show ?thesis by blast
next
  case False
  then have "run g s = Some \<lparr>dist = (\<lambda>u. if hasNode g u then Some PInf else None), parent = Map.empty\<rparr>"
    by (simp add: run_def Let_def)
  moreover have "getPathTo \<lparr>dist = (\<lambda>u. if hasNode g u then Some PInf else None), parent = Map.empty\<rparr>
      start target = Some []"
    by (simp add: getPathTo_def)
  ultimately show ?thesis by blast
qed

text \<open>
  Claim C2. For every state \<open>dist\<close>, \<open>parent\<close> of a Dijkstra instance, hence for every
  state after a run, \<open>getPathTo(start, target)\<close> returns the empty sequence when \<open>target\<close> has no recorded distance or the
  distance \<open>+\<infinity>\<close>, and when the walk along \<open>parent\<close> from \<open>target\<close> comes, after some number
  \<open>k\<close> of steps on which it does not meet \<open>start\<close>, to a node with no parent entry;
  nothing in it can throw, the only throwing call \<open>dist.at(target)\<close> being
  guarded by \<open>dist.count(target)\<close>. Whenever it returns a sequence that is not
  empty, the sequence begins with \<open>start\<close> and ends with \<open>target\<close>. After a run on a
  graph with finitely many nodes and no negative weight it does return, for every
  \<open>start\<close> and \<open>target\<close>.
\<close>

theorem getPathTo_ends:
  "(dist dj target = None \<or> dist dj target = Some PInf \<longrightarrow> getPathTo dj start target = Some []) \<and>
   (broken_after (parent dj) start target k \<longrightarrow> getPathTo dj start target = Some []) \<and>
   (getPathTo dj start target = Some xs \<and> xs \<noteq> [] \<longrightarrow> hd xs = start \<and> last xs = target) \<and>
   (finite (dom (adjacency g)) \<and> nonneg_weights g \<longrightarrow>
      (\<exists>dj' ys. run g s = Some dj' \<and> getPathTo dj' start target = Some ys))"
proof -
  have a: "dist dj target = None \<or> dist dj target = Some PInf \<longrightarrow> getPathTo dj start target = Some []"
    by (simp add: getPathTo_def)
  have b: "broken_after (parent dj) start target k \<longrightarrow> getPathTo dj start target = Some []"
  proof
    assume br: "broken_after (parent dj) start target k"
    show "getPathTo dj start target = Some []"
      unfolding getPathTo_def using pathLoop_broken [OF br] by simp
  qed
  have c: "getPathTo dj start target = Some xs \<and> xs \<noteq> [] \<longrightarrow> hd xs = start \<and> last xs = target"
  proof (intro impI, elim conjE)
    assume g: "getPathTo dj start target = Some xs" and ne: "xs \<noteq> []"
    then have "pathLoop (parent dj) start target [] = Some xs"
      by (auto simp: getPathTo_def split: if_splits)
    from pathLoop_ends [OF this ne] show "hd xs = start \<and> last xs = target" by simp
  qed
  have d: "finite (dom (adjacency g)) \<and> nonneg_weights g \<longrightarrow>
      (\<exists>dj' ys. run g s = Some dj' \<and> getPathTo dj' start target = Some ys)"
    using run_getPathTo_returns [of g s start target] by simp
  from a b c d show ?thesis by (intro conjI)
qed

theorem getPathTo_ends_witness:
  "getPathTo \<lparr>dist = [1 \<mapsto> Fin 0, 2 \<mapsto> Fin 5, 3 \<mapsto> Fin 7, 4 \<mapsto> PInf, 5 \<mapsto> Fin 1],
              parent = [2 \<mapsto> 1, 3 \<mapsto> 2::nat]\<rparr> 1 4 = Some [] \<and>
   broken_after [2 \<mapsto> 1, 3 \<mapsto> 2::nat] 5 3 (Suc (Suc 0)) \<and>
   getPathTo \<lparr>dist = [1 \<mapsto> Fin 0, 2 \<mapsto> Fin 5, 3 \<mapsto> Fin 7, 4 \<mapsto> PInf, 5 \<mapsto> Fin 1],
              parent = [2 \<mapsto> 1, 3 \<mapsto> 2::nat]\<rparr> 5 3 = Some [] \<and>
   getPathTo \<lparr>dist = [1 \<mapsto> Fin 0, 2 \<mapsto> Fin 5, 3 \<mapsto> Fin 7, 4 \<mapsto> PInf, 5 \<mapsto> Fin 1],
              parent = [2 \<mapsto> 1, 3 \<mapsto> 2::nat]\<rparr> 1 3 = Some [1, 2, 3] \<and>
   hd [1, 2, 3::nat] = 1 \<and> last [1, 2, 3::nat] = 3 \<and>
   finite (dom (adjacency wg_ex)) \<and> nonneg_weights wg_ex \<and>
   (\<exists>dj' ys. run wg_ex 1 = Some dj' \<and> getPathTo dj' 2 3 = Some ys)"
proof -
  let ?dj = "\<lparr>dist = [1 \<mapsto> Fin 0, 2 \<mapsto> Fin 5, 3 \<mapsto> Fin 7, 4 \<mapsto> PInf, 5 \<mapsto> Fin 1],
              parent = [2 \<mapsto> 1, 3 \<mapsto> 2::nat]\<rparr>"
  have p: "getPathTo ?dj 1 3 = Some [1, 2, 3]"
    unfolding getPathTo_def
    apply simp
    apply (subst pathLoop.simps)
    apply simp
    apply (subst pathLoop.simps)
    apply simp
    apply (subst pathLoop.simps)
    apply simp
    done
  have b: "broken_after [2 \<mapsto> 1, 3 \<mapsto> 2::nat] 5 3 (Suc (Suc 0))"
    by simp
  have fin: "finite (dom (adjacency wg_ex))" by (simp add: wg_ex_eq)
  show ?thesis
    using getPathTo_ends [of ?dj 4 1 0 "[]" wg_ex 1]
      getPathTo_ends [of ?dj 3 5 "Suc (Suc 0)" "[]" wg_ex 1]
      getPathTo_ends [of ?dj 3 1 0 "[1, 2, 3]" wg_ex 1]
      getPathTo_ends [of ?dj 3 2 0 "[]" wg_ex 1] p b fin wg_ex_nonneg
    by simp
qed

end
